theory Spec2Isabelle
  imports Main
begin

section \<open>gomail: the frame reader and the dialogue driver of \<open>main.go\<close>\<close>

text \<open>
  A shallow embedding of \<open>src/main.go\<close>. Go's \<open>[]byte\<close> and \<open>string\<close> are both
  \<open>string\<close> (a list of 8-bit characters); slicing \<open>b[:i]\<close> is \<open>take i b\<close> and
  \<open>b[i:]\<close> is \<open>drop i b\<close>, written only where the index is in range (a slice out of
  range panics in Go, and the model then returns \<open>Panic\<close>). A method that changes
  the connection returns the changed connection beside its result. The calls that only
  log (\<open>logInfo\<close>) and the deferred \<open>conn.Close()\<close> are left out; \<open>logError(err)\<close>
  followed by \<open>return\<close> is the result \<open>Logged err\<close>. The driver takes the tables of
  Go's \<open>unicode\<close> package as a parameter \<open>u\<close>; what is proved of it holds for every \<open>u\<close>.
\<close>

subsection \<open>Bytes\<close>

abbreviation CR :: char where "CR \<equiv> CHR 0x0D"
abbreviation LF :: char where "LF \<equiv> CHR 0x0A"
abbreviation TAB :: char where "TAB \<equiv> CHR 0x09"
abbreviation SP :: char where "SP \<equiv> CHR '' ''"
abbreviation DOT :: char where "DOT \<equiv> CHR ''.''"

abbreviation crlf :: string where "crlf \<equiv> [CR, LF]"

text \<open>The five bytes CR LF "." CR LF that close a message body.\<close>

abbreviation sentinel :: string where "sentinel \<equiv> [CR, LF, DOT, CR, LF]"

subsection \<open>The transport (\<open>net.Conn\<close>)\<close>

text \<open>
  The errors the program logs: the transport's (\<open>io.EOF\<close> when the peer has closed,
  any other read or write failure), \<open>errors.New("Expected EHLO got: " + line)\<close>, and
  the \<open>*strconv.NumError\<close> of \<open>strconv.Atoi\<close>.
\<close>

datatype error = EOF | IOError string | ExpectedEHLO string | NumError string

text \<open>
  The peer is a script: \<open>incoming\<close> lists what will arrive, in order, each entry a
  segment of bytes or a read failure; when the script is used up the peer has closed
  the stream. \<open>wscript\<close> scripts the writes the same way (\<open>None\<close>: the write is
  accepted; once used up every write is accepted) and \<open>outgoing\<close> collects the bytes
  written.
\<close>

datatype read_event = Data string | RFail error

record net_conn =
  incoming :: "read_event list"
  wscript :: "error option list"
  outgoing :: string

text \<open>
  \<open>conn.Read(b)\<close> for a buffer \<open>b\<close> of \<open>n\<close> bytes: at most \<open>n\<close> bytes of the next
  segment, and what does not fit stays for the next call. A read that fails returns no
  bytes (the callers drop them on an error).
\<close>

definition Read :: "nat \<Rightarrow> net_conn \<Rightarrow> (error + string) \<times> net_conn" where
  "Read n nc =
     (case incoming nc of
        [] \<Rightarrow> (Inl EOF, nc)
      | RFail e # t \<Rightarrow> (Inl e, nc\<lparr>incoming := t\<rparr>)
      | Data s # t \<Rightarrow>
          if length s \<le> n then (Inr s, nc\<lparr>incoming := t\<rparr>)
          else (Inr (take n s), nc\<lparr>incoming := Data (drop n s) # t\<rparr>))"

text \<open>
  \<open>conn.Write(p)\<close>. An \<open>io.Writer\<close> returns a non-nil error whenever it accepts fewer
  than \<open>len(p)\<close> bytes, so a write either accepts all of \<open>p\<close> or fails.
\<close>

definition Write :: "string \<Rightarrow> net_conn \<Rightarrow> (error + nat) \<times> net_conn" where
  "Write p nc =
     (case wscript nc of
        [] \<Rightarrow> (Inr (length p), nc\<lparr>outgoing := outgoing nc @ p\<rparr>)
      | None # w \<Rightarrow> (Inr (length p), nc\<lparr>wscript := w, outgoing := outgoing nc @ p\<rparr>)
      | Some e # w \<Rightarrow> (Inl e, nc\<lparr>wscript := w\<rparr>))"

text \<open>What is still to arrive, as a number that every successful read lowers.\<close>

fun pending :: "read_event list \<Rightarrow> nat" where
  "pending [] = 0"
| "pending (Data s # t) = Suc (length s) + pending t"
| "pending (RFail e # t) = Suc (pending t)"

subsection \<open>The connection\<close>

record connection =
  conn :: net_conn
  ident :: int
  buf :: string

subsection \<open>\<open>readLine\<close>\<close>

text \<open>
  The scan \<open>for i, b := range c.buf\<close> of \<open>readLine\<close>: the first index whose byte is LF
  with a CR before it.
\<close>

definition isLineEnd :: "connection \<Rightarrow> nat \<Rightarrow> bool" where
  "isLineEnd c i \<longleftrightarrow> buf c ! i = LF \<and> 0 < i \<and> buf c ! (i - 1) = CR"

lemma Read_pending:
  "Read n nc = (Inr b, nc') \<Longrightarrow> 0 < n \<Longrightarrow> pending (incoming nc') < pending (incoming nc)"
  by (auto simp: Read_def split: list.splits read_event.splits if_splits)

function readLine :: "connection \<Rightarrow> (error + string) \<times> connection" where
  "readLine c =
     (case Read 1024 (conn c) of
        (Inl err, nc) \<Rightarrow> (Inl err, c\<lparr>conn := nc\<rparr>)
      | (Inr b, nc) \<Rightarrow>
          (let c' = c\<lparr>conn := nc, buf := buf c @ b\<rparr> in
           case List.find (isLineEnd c') [0..<length (buf c')] of
             Some i \<Rightarrow> (Inr (take (i - 1) (buf c')), c'\<lparr>buf := drop (i + 1) (buf c')\<rparr>)
           | None \<Rightarrow> readLine c'))"
  by pat_completeness auto
termination
  by (relation "measure (\<lambda>c. pending (incoming (conn c)))") (auto dest: Read_pending [OF sym])

declare readLine.simps [simp del]

subsection \<open>\<open>isBodyClose\<close>, \<open>readMultiLine\<close>, \<open>readToEndOfBody\<close>\<close>

definition isBodyClose :: "connection \<Rightarrow> nat \<Rightarrow> bool" where
  "isBodyClose c i \<longleftrightarrow>
     4 < i \<and>
     buf c ! (i - 4) = CR \<and>
     buf c ! (i - 3) = LF \<and>
     buf c ! (i - 2) = DOT \<and>
     buf c ! (i - 1) = CR \<and>
     buf c ! (i - 0) = LF"

text \<open>
  The inner loop of \<open>readMultiLine\<close> over the indices still to visit: \<open>Inl i\<close> when it
  returns at index \<open>i\<close>, \<open>Inr noMoreReads\<close> when it runs to the end of the buffer.
\<close>

fun multiLineScan :: "connection \<Rightarrow> nat list \<Rightarrow> bool \<Rightarrow> nat + bool" where
  "multiLineScan c [] noMoreReads = Inr noMoreReads"
| "multiLineScan c (i # is) noMoreReads =
     (let b = buf c ! i in
      if 1 < i \<and> b \<noteq> SP \<and> b \<noteq> TAB \<and> buf c ! (i - 2) = CR \<and> buf c ! (i - 1) = LF
      then Inl i
      else multiLineScan c is (isBodyClose c i))"

text \<open>
  The outer \<open>for\<close> of \<open>readMultiLine\<close> has a branch that goes round without reading
  (\<open>noMoreReads\<close>), so the function is partial: \<open>None\<close> is "does not return".
\<close>

partial_function (option) readMultiLine :: "connection \<Rightarrow> ((error + string) \<times> connection) option" where
  "readMultiLine c =
     (case multiLineScan c [0..<length (buf c)] False of
        Inl i \<Rightarrow> Some (Inr (take (i - 2) (buf c)), c\<lparr>buf := drop i (buf c)\<rparr>)
      | Inr noMoreReads \<Rightarrow>
          if \<not> noMoreReads then
            (case Read 1024 (conn c) of
               (Inl err, nc) \<Rightarrow> Some (Inl err, c\<lparr>conn := nc\<rparr>)
             | (Inr b, nc) \<Rightarrow> readMultiLine (c\<lparr>conn := nc, buf := buf c @ b\<rparr>))
          else readMultiLine c)"

declare readMultiLine.simps [code]

function readToEndOfBody :: "int \<Rightarrow> connection \<Rightarrow> (error + string) \<times> connection" where
  "readToEndOfBody toRead c =
     (case List.find (isBodyClose c) [0..<length (buf c)] of
        Some i \<Rightarrow> (Inr (take (i - 4) (buf c)), c)
      | None \<Rightarrow>
          (case Read 1024 (conn c) of
             (Inl err, nc) \<Rightarrow> (Inl err, c\<lparr>conn := nc\<rparr>)
           | (Inr b, nc) \<Rightarrow> readToEndOfBody toRead (c\<lparr>conn := nc, buf := buf c @ b\<rparr>)))"
  by pat_completeness auto
termination
  by (relation "measure (\<lambda>(toRead, c). pending (incoming (conn c)))")
    (auto dest: Read_pending [OF sym])

declare readToEndOfBody.simps [simp del]

subsection \<open>\<open>writeLn\<close>\<close>

lemma Write_length: "Write p nc = (Inr n, nc') \<Longrightarrow> n = length p"
  by (auto simp: Write_def split: list.splits option.splits)

text \<open>The loop \<open>for len(msg) > 0\<close> of \<open>writeLn\<close>, entered with \<open>msg + "\r\n"\<close>.\<close>

function writeAll :: "string \<Rightarrow> connection \<Rightarrow> (error + unit) \<times> connection" where
  "writeAll msg c =
     (if 0 < length msg then
        (case Write msg (conn c) of
           (Inl err, nc) \<Rightarrow> (Inl err, c\<lparr>conn := nc\<rparr>)
         | (Inr n, nc) \<Rightarrow> writeAll (drop n msg) (c\<lparr>conn := nc\<rparr>))
      else (Inr (), c))"
  by pat_completeness auto
termination
  by (relation "measure (\<lambda>(msg, c). length msg)") (auto dest: Write_length [OF sym])

declare writeAll.simps [simp del]

definition writeLn :: "string \<Rightarrow> connection \<Rightarrow> (error + unit) \<times> connection" where
  "writeLn msg c = writeAll (msg @ crlf) c"

subsection \<open>The library functions the driver calls\<close>

text \<open>
  \<open>strings.HasPrefix\<close>, \<open>strings.Index\<close> and \<open>strings.SplitN(s, sep, 2)\<close> for a
  non-empty \<open>sep\<close>: the text before and after the first \<open>sep\<close>, or \<open>s\<close> alone when
  there is none.
\<close>

definition HasPrefix :: "string \<Rightarrow> string \<Rightarrow> bool" where
  "HasPrefix s p \<longleftrightarrow> length p \<le> length s \<and> take (length p) s = p"

definition Index :: "string \<Rightarrow> string \<Rightarrow> nat option" where
  "Index s sep = List.find (\<lambda>i. take (length sep) (drop i s) = sep) [0..<Suc (length s)]"

definition SplitN2 :: "string \<Rightarrow> string \<Rightarrow> string list" where
  "SplitN2 s sep =
     (case Index s sep of
        None \<Rightarrow> [s]
      | Some m \<Rightarrow> [take m s, drop (m + length sep) s])"

text \<open>
  \<open>strings.ToUpper\<close> and \<open>strings.TrimSpace\<close> work byte by byte on ASCII text and by
  Unicode code point where they meet a byte from 0x80 on (\<open>utf8.RuneSelf\<close>). The Unicode
  paths rest on the tables of Go's \<open>unicode\<close> package, which are taken as a parameter:
  \<open>mapToUpper u s\<close> is \<open>strings.Map(unicode.ToUpper, s)\<close>, \<open>trimFunc u s\<close> is
  \<open>strings.TrimFunc(s, unicode.IsSpace)\<close> and \<open>trimRightFunc u s\<close> is
  \<open>strings.TrimRightFunc(s, unicode.IsSpace)\<close>.
\<close>

record unicode =
  mapToUpper :: "string \<Rightarrow> string"
  trimFunc :: "string \<Rightarrow> string"
  trimRightFunc :: "string \<Rightarrow> string"

definition isASCII :: "char \<Rightarrow> bool" where
  "isASCII ch \<longleftrightarrow> of_char ch < (128::nat)"

definition upperByte :: "char \<Rightarrow> char" where
  "upperByte ch =
     (if (97::nat) \<le> of_char ch \<and> of_char ch \<le> (122::nat)
      then char_of (of_char ch - (32::nat)) else ch)"

text \<open>
  \<open>strings.ToUpper\<close>: a text of ASCII bytes has its letters a to z raised; any other text
  goes to \<open>strings.Map(unicode.ToUpper, s)\<close>.
\<close>

definition ToUpper :: "unicode \<Rightarrow> string \<Rightarrow> string" where
  "ToUpper u s = (if list_all isASCII s then map upperByte s else mapToUpper u s)"

text \<open>The bytes of \<open>asciiSpace\<close>: tab, LF, VT, FF, CR and space.\<close>

definition isSpace :: "char \<Rightarrow> bool" where
  "isSpace ch \<longleftrightarrow> ch = TAB \<or> ch = LF \<or> ch = CHR 0x0B \<or> ch = CHR 0x0C \<or> ch = CR \<or> ch = SP"

text \<open>
  \<open>strings.TrimSpace\<close>: ASCII white space is skipped from the front, then from the back;
  when the skipping meets a byte from 0x80 on, the rest is trimmed by
  \<open>TrimFunc\<close> (met from the front) or \<open>TrimRightFunc\<close> (met from the back) with
  \<open>unicode.IsSpace\<close>.
\<close>

definition TrimSpace :: "unicode \<Rightarrow> string \<Rightarrow> string" where
  "TrimSpace u s =
     (let s1 = dropWhile isSpace s in
      if s1 \<noteq> [] \<and> \<not> isASCII (hd s1) then trimFunc u s1
      else
        (let r = dropWhile isSpace (rev s1) in
         if r \<noteq> [] \<and> \<not> isASCII (hd r) then trimRightFunc u (rev r)
         else rev r))"

text \<open>
  A stand-in for the tables where every text is ASCII, so that they are not consulted.
\<close>

definition noUnicode :: unicode where
  "noUnicode = \<lparr>mapToUpper = id, trimFunc = id, trimRightFunc = id\<rparr>"

text \<open>
  \<open>strconv.Atoi\<close>: an optional sign, then one or more decimal digits, the value within
  the 64-bit \<open>int\<close>; anything else is a \<open>NumError\<close>.
\<close>

definition isDigit :: "char \<Rightarrow> bool" where
  "isDigit ch \<longleftrightarrow> (48::nat) \<le> of_char ch \<and> of_char ch \<le> (57::nat)"

definition digitsValue :: "string \<Rightarrow> int" where
  "digitsValue ds = foldl (\<lambda>n ch. n * 10 + (int (of_char ch) - 48)) 0 ds"

definition Atoi :: "string \<Rightarrow> error + int" where
  "Atoi s =
     (let neg = (s \<noteq> [] \<and> hd s = CHR ''-'');
          ds = (if s \<noteq> [] \<and> (hd s = CHR ''-'' \<or> hd s = CHR ''+'') then tl s else s)
      in if ds = [] \<or> \<not> list_all isDigit ds then Inl (NumError s)
         else (let v = (if neg then - digitsValue ds else digitsValue ds)
               in if v < - (2 ^ 63) \<or> 2 ^ 63 \<le> v then Inl (NumError s) else Inr v))"

subsection \<open>The message and the dialogue driver \<open>handle\<close>\<close>

record message =
  clientDomain :: string
  smtpHeaders :: "string \<rightharpoonup> string"
  atmHeaders :: "string \<rightharpoonup> string"
  body :: string
  from_field :: string
  date :: string
  subject :: string
  to_field :: string

text \<open>
  How a phase of \<open>handle\<close> ends: it goes on with a value, it logs an error and returns,
  or the goroutine panics (an index or a slice bound out of range).
\<close>

datatype 'a result = Ok 'a | Logged error | Panic

text \<open>The message \<open>handle\<close> starts from (line 155).\<close>

definition noMessage :: message where
  "noMessage = \<lparr>clientDomain = [], smtpHeaders = Map.empty, atmHeaders = Map.empty,
                 body = [], from_field = [], date = [], subject = [], to_field = []\<rparr>"

text \<open>
  Lines 143 to 197: the banner, the first line, the EHLO test and the capability lines.
  The result is the first line and the message with its client domain.
\<close>

definition greet :: "connection \<Rightarrow> (string \<times> message) result \<times> connection" where
  "greet c =
     (case writeLn ''220 mail.binutils.org ESMTP gomail'' c of
        (Inl err, c1) \<Rightarrow> (Logged err, c1)
      | (Inr _, c1) \<Rightarrow>
     (case readLine c1 of
        (Inl err, c2) \<Rightarrow> (Logged err, c2)
      | (Inr line, c2) \<Rightarrow>
     (let msg = noMessage in
      if HasPrefix line ''EHLO'' then
        (if length line < length ''EHLO '' then (Panic, c2)
         else
           (let msg = msg\<lparr>clientDomain := drop (length ''EHLO '') line\<rparr> in
            case writeLn (''250-mail.binutils.org greets '' @ clientDomain msg) c2 of
              (Inl err, c3) \<Rightarrow> (Logged err, c3)
            | (Inr _, c3) \<Rightarrow>
           (case writeLn (''250-'' @ ''8BITMIME'') c3 of
              (Inl err, c4) \<Rightarrow> (Logged err, c4)
            | (Inr _, c4) \<Rightarrow>
           (case writeLn (''250-'' @ ''SIZE'') c4 of
              (Inl err, c5) \<Rightarrow> (Logged err, c5)
            | (Inr _, c5) \<Rightarrow>
           (case writeLn (''250-'' @ ''DSN'') c5 of
              (Inl err, c6) \<Rightarrow> (Logged err, c6)
            | (Inr _, c6) \<Rightarrow>
           (case writeLn ''250 HELP'' c6 of
              (Inl err, c7) \<Rightarrow> (Logged err, c7)
            | (Inr _, c7) \<Rightarrow> (Ok (line, msg), c7)))))))
      else (Logged (ExpectedEHLO (''Expected EHLO got: '' @ line)), c2))))"

text \<open>
  Lines 225 to 236: the new value of \<open>size\<close> (here \<open>sz\<close>) after a command
  \<open>smtpHeader\<close> with value \<open>smtpValue\<close>.
\<close>

definition declaredSize :: "string \<Rightarrow> string \<Rightarrow> int \<Rightarrow> int result" where
  "declaredSize smtpHeader smtpValue sz =
     (if smtpHeader = ''MAIL FROM'' then
        (let pieces = SplitN2 smtpValue ''> '' in
         if length pieces < 2 then Panic
         else
           (let afterFrom = pieces ! 1 in
            if HasPrefix afterFrom ''SIZE='' then
              (let afterEq = SplitN2 afterFrom ''SIZE='' ! 1 in
               case Atoi afterEq of
                 Inl err \<Rightarrow> Logged err
               | Inr n \<Rightarrow> Ok n)
            else Ok sz))
      else Ok sz)"

lemma readLine_pending:
  "readLine c = (Inr l, c') \<Longrightarrow> pending (incoming (conn c')) < pending (incoming (conn c))"
proof (induction c rule: readLine.induct)
  case (1 c)
  obtain r nc where rd: "Read 1024 (conn c) = (r, nc)" by (cases "Read 1024 (conn c)")
  show ?case
  proof (cases r)
    case (Inl e)
    with rd "1.prems" show ?thesis by (simp add: readLine.simps [of c])
  next
    case (Inr b)
    let ?c' = "c\<lparr>conn := nc, buf := buf c @ b\<rparr>"
    have lt: "pending (incoming nc) < pending (incoming (conn c))"
      using rd Inr by (auto dest: Read_pending)
    show ?thesis
    proof (cases "List.find (isLineEnd ?c') [0..<length (buf ?c')]")
      case None
      with rd Inr "1.prems" have "readLine ?c' = (Inr l, c')"
        by (simp add: readLine.simps [of c])
      with "1.IH" [OF rd [symmetric, unfolded Inr] refl] None
      have "pending (incoming (conn c')) < pending (incoming (conn ?c'))" by simp
      with lt show ?thesis by simp
    next
      case (Some i)
      with rd Inr "1.prems" have "c' = ?c'\<lparr>buf := drop (i + 1) (buf ?c')\<rparr>"
        by (simp add: readLine.simps [of c])
      with lt show ?thesis by simp
    qed
  qed
qed

lemma writeAll_incoming:
  "writeAll msg c = (r, c') \<Longrightarrow> incoming (conn c') = incoming (conn c) \<and> buf c' = buf c"
proof (induction msg c rule: writeAll.induct)
  case (1 msg c)
  show ?case
  proof (cases "0 < length msg")
    case False
    with "1.prems" show ?thesis by (simp add: writeAll.simps [of msg c])
  next
    case True
    obtain w nc where wr: "Write msg (conn c) = (w, nc)" by (cases "Write msg (conn c)")
    have inc: "incoming nc = incoming (conn c)"
      using wr by (auto simp: Write_def split: list.splits option.splits)
    show ?thesis
    proof (cases w)
      case (Inl e)
      with wr True "1.prems" inc show ?thesis by (auto simp: writeAll.simps [of msg c])
    next
      case (Inr n)
      with wr True "1.prems" have "writeAll (drop n msg) (c\<lparr>conn := nc\<rparr>) = (r, c')"
        by (simp add: writeAll.simps [of msg c])
      from "1.IH" [OF True wr [symmetric] Inr this] inc show ?thesis by simp
    qed
  qed
qed

lemma writeLn_incoming:
  "writeLn msg c = (r, c') \<Longrightarrow> incoming (conn c') = incoming (conn c) \<and> buf c' = buf c"
  unfolding writeLn_def by (rule writeAll_incoming)

text \<open>
  Lines 199 to 245: the loop \<open>for line != ""\<close> over the commands, left by \<open>break\<close> at
  \<open>DATA\<close>. The result is the message and \<open>size\<close>.
\<close>

function commandLoop :: "unicode \<Rightarrow> string \<Rightarrow> message \<Rightarrow> int \<Rightarrow> connection \<Rightarrow> (message \<times> int) result \<times> connection" where
  "commandLoop u line msg sz c =
     (if line \<noteq> [] then
        (case readLine c of
           (Inl err, c1) \<Rightarrow> (Logged err, c1)
         | (Inr line', c1) \<Rightarrow>
        (let pieces = SplitN2 line' '':'';
             smtpHeader = ToUpper u (pieces ! 0)
         in
         if smtpHeader = ''DATA'' then
           (case writeLn ''354'' c1 of
              (Inl err, c2) \<Rightarrow> (Logged err, c2)
            | (Inr _, c2) \<Rightarrow> (Ok (msg, sz), c2))
         else if length pieces < 2 then (Panic, c1)
         else
           (let smtpValue = pieces ! 1;
                msg' = msg\<lparr>smtpHeaders := (smtpHeaders msg)(smtpHeader \<mapsto> smtpValue)\<rparr>
            in
            case declaredSize smtpHeader smtpValue sz of
              Panic \<Rightarrow> (Panic, c1)
            | Logged err \<Rightarrow> (Logged err, c1)
            | Ok sz' \<Rightarrow>
           (case writeLn ''250 OK'' c1 of
              (Inl err, c2) \<Rightarrow> (Logged err, c2)
            | (Inr _, c2) \<Rightarrow> commandLoop u line' msg' sz' c2))))
      else (Ok (msg, sz), c))"
  by pat_completeness auto
termination
proof (relation "measure (\<lambda>(u, line, msg, sz, c). pending (incoming (conn c)))", goal_cases)
  case 1
  show ?case by simp
next
  case 2
  then show ?case
    by (auto dest!: readLine_pending [OF sym] writeLn_incoming [OF sym])
qed

declare commandLoop.simps [simp del]

text \<open>Lines 249 to 277: the loop over the folded header lines, left at a blank one.\<close>

partial_function (option) headerLoop :: "unicode \<Rightarrow> message \<Rightarrow> connection \<Rightarrow> (message result \<times> connection) option" where
  "headerLoop u msg c =
     (case readMultiLine c of
        None \<Rightarrow> None
      | Some (Inl err, c1) \<Rightarrow> Some (Logged err, c1)
      | Some (Inr line, c1) \<Rightarrow>
          if TrimSpace u line = [] then Some (Ok msg, c1)
          else
            (let pieces = SplitN2 line '': '';
                 atmHeader = ToUpper u (pieces ! 0)
             in
             if length pieces < 2 then Some (Panic, c1)
             else
               (let atmValue = pieces ! 1;
                    msg1 = msg\<lparr>atmHeaders := (atmHeaders msg)(atmHeader \<mapsto> atmValue)\<rparr>;
                    msg2 = (if atmHeader = ''SUBJECT'' then msg1\<lparr>subject := atmValue\<rparr> else msg1);
                    msg3 = (if atmHeader = ''TO'' then msg2\<lparr>to_field := atmValue\<rparr> else msg2);
                    msg4 = (if atmHeader = ''FROM'' then msg3\<lparr>from_field := atmValue\<rparr> else msg3);
                    msg5 = (if atmHeader = ''DATE'' then msg4\<lparr>date := atmValue\<rparr> else msg4)
                in headerLoop u msg5 c1)))"

declare headerLoop.simps [code]

text \<open>
  \<open>handle\<close>: the three phases, then the body (lines 281 to 297). \<open>None\<close>: the header
  phase does not return.
\<close>

definition handle :: "unicode \<Rightarrow> connection \<Rightarrow> (message result \<times> connection) option" where
  "handle u c =
     (case greet c of
        (Logged err, c1) \<Rightarrow> Some (Logged err, c1)
      | (Panic, c1) \<Rightarrow> Some (Panic, c1)
      | (Ok (line, msg), c1) \<Rightarrow>
     (case commandLoop u line msg 0 c1 of
        (Logged err, c2) \<Rightarrow> Some (Logged err, c2)
      | (Panic, c2) \<Rightarrow> Some (Panic, c2)
      | (Ok (msg, sz), c2) \<Rightarrow>
     (case headerLoop u msg c2 of
        None \<Rightarrow> None
      | Some (Logged err, c3) \<Rightarrow> Some (Logged err, c3)
      | Some (Panic, c3) \<Rightarrow> Some (Panic, c3)
      | Some (Ok msg, c3) \<Rightarrow>
     (case readToEndOfBody sz c3 of
        (Inl err, c4) \<Rightarrow> Some (Logged err, c4)
      | (Inr b, c4) \<Rightarrow>
     (let msg = msg\<lparr>body := b\<rparr> in
      case writeLn ''250 OK'' c4 of
        (Inl err, c5) \<Rightarrow> Some (Logged err, c5)
      | (Inr _, c5) \<Rightarrow> Some (Ok msg, c5))))))"

text \<open>
  \<open>main\<close> hands \<open>handle\<close> a connection with an empty buffer; \<open>peer\<close> is a client whose
  segments arrive as listed and who then closes the stream.
\<close>

definition peer :: "string list \<Rightarrow> net_conn" where
  "peer segs = \<lparr>incoming = map Data segs, wscript = [], outgoing = []\<rparr>"

definition accepted :: "net_conn \<Rightarrow> connection" where
  "accepted nc = \<lparr>conn = nc, ident = 1, buf = []\<rparr>"

text \<open>
  What a run of \<open>handle\<close> shows from outside: how it ended (of the message, the client
  domain) and the bytes written to the peer.
\<close>

definition observed :: "(message result \<times> connection) option \<Rightarrow> (string result \<times> string) option" where
  "observed = map_option (map_prod (map_result clientDomain) (\<lambda>c. outgoing (conn c)))"

text \<open>
  The payloads of up to \<open>k\<close> calls of \<open>readLine\<close> in a row, up to the first that fails.
\<close>

fun readLines :: "nat \<Rightarrow> connection \<Rightarrow> string list" where
  "readLines 0 c = []"
| "readLines (Suc k) c =
     (case readLine c of
        (Inl err, c') \<Rightarrow> []
      | (Inr line, c') \<Rightarrow> line # readLines k c')"

text \<open>
  A numeric text, as \<open>strconv.Atoi\<close> reads one: an optional sign and then at least one
  decimal digit.
\<close>

definition numeric :: "string \<Rightarrow> bool" where
  "numeric s \<longleftrightarrow>
     (case s of
        [] \<Rightarrow> False
      | ch # cs \<Rightarrow>
          if ch = CHR ''-'' \<or> ch = CHR ''+'' then cs \<noteq> [] \<and> list_all isDigit cs
          else list_all isDigit s)"

text \<open>The number such a text denotes, and the texts whose number the 64-bit \<open>int\<close> holds.\<close>

definition numberOf :: "string \<Rightarrow> int" where
  "numberOf s =
     (case s of
        [] \<Rightarrow> 0
      | ch # cs \<Rightarrow>
          if ch = CHR ''-'' then - digitsValue cs
          else if ch = CHR ''+'' then digitsValue cs
          else digitsValue s)"

definition intText :: "string \<Rightarrow> bool" where
  "intText s \<longleftrightarrow> numeric s \<and> - (2 ^ 63) \<le> numberOf s \<and> numberOf s < 2 ^ 63"

section \<open>Properties\<close>

subsection \<open>Scans as first matching indices\<close>

lemma find_upt_Some:
  "List.find P [0..<n] = Some i \<longleftrightarrow> i < n \<and> P i \<and> (\<forall>j<i. \<not> P j)"
  by (auto simp: find_Some_iff)

lemma find_upt_None: "List.find P [0..<n] = None \<longleftrightarrow> (\<forall>j<n. \<not> P j)"
  by (auto simp: find_None_iff)

lemma take5_drop:
  "k + 4 < length b \<Longrightarrow>
     take 5 (drop k b) = [b ! k, b ! (k + 1), b ! (k + 2), b ! (k + 3), b ! (k + 4)]"
  by (auto simp: list_eq_iff_nth_eq less_Suc_eq numeral_eq_Suc nth_Cons')

lemma take5_sentinel_length: "take 5 (drop k b) = sentinel \<Longrightarrow> k + 4 < length b"
proof -
  assume "take 5 (drop k b) = sentinel"
  then have "length (take 5 (drop k b)) = 5" by simp
  then show ?thesis by simp
qed

lemma isBodyClose_iff:
  "i < length (buf c) \<Longrightarrow>
     isBodyClose c i \<longleftrightarrow> 4 < i \<and> take 5 (drop (i - 4) (buf c)) = sentinel"
  by (auto simp: isBodyClose_def take5_drop) (simp_all add: numeral_eq_Suc Suc_diff_Suc)

subsection \<open>\<open>readLine\<close> reads before it scans\<close>

text \<open>
  C1. The claim: with two complete lines in the buffer after one transport read, two
  calls of \<open>readLine\<close> return \<open>A\<close> and then \<open>B\<close> without a further read. The code reads
  first in every call (lines 47 to 53 come before the scan): after the read that
  delivers both lines the first call returns \<open>A\<close> and keeps \<open>B\<close> with its CRLF in the
  buffer, and the second call, with that line in the buffer and nothing more to arrive,
  fails with the transport's error instead of returning \<open>B\<close>; so does every call, whatever
  is in the buffer, once the peer has closed.
\<close>

theorem readLine_reads_first:
  "readLine (accepted (peer [''A'' @ crlf @ ''B'' @ crlf])) =
     (Inr ''A'', \<lparr>conn = peer [], ident = 1, buf = ''B'' @ crlf\<rparr>) \<and>
   readLine \<lparr>conn = peer [], ident = 1, buf = ''B'' @ crlf\<rparr> =
     (Inl EOF, \<lparr>conn = peer [], ident = 1, buf = ''B'' @ crlf\<rparr>) \<and>
   (\<forall>b. fst (readLine \<lparr>conn = peer [], ident = 1, buf = b\<rparr>) = Inl EOF)"
  apply (intro conjI)
    apply code_simp
   apply code_simp
  apply (simp add: readLine.simps Read_def peer_def)
  done

subsection \<open>\<open>readToEndOfBody\<close>: where the body ends\<close>

text \<open>The bytes that will arrive before the first read failure, in order.\<close>

fun arriving :: "read_event list \<Rightarrow> string" where
  "arriving [] = []"
| "arriving (Data s # t) = s @ arriving t"
| "arriving (RFail e # t) = []"

lemma Read_arriving:
  "Read n nc = (Inr b, nc') \<Longrightarrow> arriving (incoming nc) = b @ arriving (incoming nc')"
  by (auto simp: Read_def split: list.splits read_event.splits if_splits)

lemma Read_arriving_fail:
  "Read n nc = (Inl e, nc') \<Longrightarrow> arriving (incoming nc) = []"
  by (auto simp: Read_def split: list.splits read_event.splits if_splits)

lemma arriving_Data: "arriving (map Data segs @ t) = concat segs @ arriving t"
  by (induction segs) auto

text \<open>The sentinel ends at index \<open>i\<close> of the text \<open>s\<close>, and does not start at its front.\<close>

definition closesAt :: "string \<Rightarrow> nat \<Rightarrow> bool" where
  "closesAt s i \<longleftrightarrow> 4 < i \<and> i < length s \<and> take 5 (drop (i - 4) s) = sentinel"

lemma isBodyClose_closesAt:
  "i < length (buf c) \<Longrightarrow> isBodyClose c i \<longleftrightarrow> closesAt (buf c) i"
  by (simp add: isBodyClose_iff closesAt_def)

lemma closesAt_append: "i < length s \<Longrightarrow> closesAt (s @ t) i \<longleftrightarrow> closesAt s i"
  by (auto simp: closesAt_def take5_drop nth_append)

lemma find_isBodyClose:
  "List.find (isBodyClose c) [0..<length (buf c)] = List.find (closesAt (buf c)) [0..<length (buf c)]"
  by (rule find_cong) (auto simp: isBodyClose_closesAt)

lemma readToEndOfBody_first_close:
  "List.find (closesAt (buf c @ arriving (incoming (conn c))))
      [0..<length (buf c @ arriving (incoming (conn c)))] = Some i \<Longrightarrow>
   fst (readToEndOfBody toRead c) = Inr (take (i - 4) (buf c @ arriving (incoming (conn c))))"
proof (induction toRead c rule: readToEndOfBody.induct)
  case (1 toRead c)
  let ?all = "buf c @ arriving (incoming (conn c))"
  from "1.prems" have i: "i < length ?all" "closesAt ?all i" "\<forall>j<i. \<not> closesAt ?all j"
    by (simp_all add: find_upt_Some)
  show ?case
  proof (cases "List.find (isBodyClose c) [0..<length (buf c)]")
    case (Some j)
    then have j: "j < length (buf c)" "closesAt (buf c) j" "\<forall>k<j. \<not> closesAt (buf c) k"
      by (simp_all add: find_isBodyClose find_upt_Some)
    then have "closesAt ?all j" by (simp add: closesAt_append)
    with i have "i \<le> j" by (meson not_less)
    moreover have "j \<le> i"
    proof (rule ccontr)
      assume "\<not> j \<le> i"
      then have "i < j" by simp
      with j i(2) show False by (auto simp: closesAt_append)
    qed
    ultimately have "i = j" by simp
    with Some j show ?thesis by (simp add: readToEndOfBody.simps [of toRead c])
  next
    case None
    obtain r nc where rd: "Read 1024 (conn c) = (r, nc)" by (cases "Read 1024 (conn c)")
    show ?thesis
    proof (cases r)
      case (Inl e)
      with rd have "arriving (incoming (conn c)) = []" by (auto dest: Read_arriving_fail)
      with i None show ?thesis by (auto simp: find_isBodyClose find_upt_None)
    next
      case (Inr b)
      let ?c' = "c\<lparr>conn := nc, buf := buf c @ b\<rparr>"
      from rd Inr have "arriving (incoming (conn c)) = b @ arriving (incoming nc)"
        by (auto dest: Read_arriving)
      then have eq: "buf ?c' @ arriving (incoming (conn ?c')) = ?all" by simp
      from "1.prems" have "List.find (closesAt (buf ?c' @ arriving (incoming (conn ?c'))))
          [0..<length (buf ?c' @ arriving (incoming (conn ?c')))] = Some i"
        unfolding eq .
      from "1.IH" [OF None rd [symmetric] Inr this]
      have "fst (readToEndOfBody toRead ?c') = Inr (take (i - 4) ?all)" unfolding eq .
      with None rd Inr show ?thesis by (simp add: readToEndOfBody.simps [of toRead c])
    qed
  qed
qed

lemma readToEndOfBody_sound:
  "readToEndOfBody toRead c = (Inr p, c') \<Longrightarrow>
     p \<noteq> [] \<and> (\<exists>rest. buf c' = p @ sentinel @ rest) \<and>
     (\<forall>k. 0 < k \<and> k < length p \<longrightarrow> take 5 (drop k (buf c')) \<noteq> sentinel)"
proof (induction toRead c rule: readToEndOfBody.induct)
  case (1 toRead c)
  show ?case
  proof (cases "List.find (isBodyClose c) [0..<length (buf c)]")
    case (Some j)
    then have j: "j < length (buf c)" "closesAt (buf c) j" "\<forall>k<j. \<not> closesAt (buf c) k"
      by (simp_all add: find_isBodyClose find_upt_Some)
    from Some "1.prems" have p: "p = take (j - 4) (buf c)" and c': "c' = c"
      by (auto simp: readToEndOfBody.simps [of toRead c])
    from j have j4: "4 < j" and sen: "take 5 (drop (j - 4) (buf c)) = sentinel"
      by (simp_all add: closesAt_def)
    have "buf c = take (j - 4) (buf c) @ take 5 (drop (j - 4) (buf c)) @ drop 5 (drop (j - 4) (buf c))"
      by (simp only: append_take_drop_id)
    with sen p have dec: "buf c = p @ sentinel @ drop 5 (drop (j - 4) (buf c))" by simp
    have lp: "length p = j - 4" using p j(1) by simp
    have "\<forall>k. 0 < k \<and> k < length p \<longrightarrow> take 5 (drop k (buf c)) \<noteq> sentinel"
    proof (intro allI impI notI)
      fix k assume k: "0 < k \<and> k < length p" and s: "take 5 (drop k (buf c)) = sentinel"
      from s have "k + 4 < length (buf c)" by (rule take5_sentinel_length)
      with k s have "closesAt (buf c) (k + 4)" by (simp add: closesAt_def)
      moreover from k lp have "k + 4 < j" by arith
      ultimately show False using j(3) by blast
    qed
    moreover from lp j4 have "p \<noteq> []" by auto
    ultimately show ?thesis using dec c' by blast
  next
    case None
    obtain r nc where rd: "Read 1024 (conn c) = (r, nc)" by (cases "Read 1024 (conn c)")
    show ?thesis
    proof (cases r)
      case (Inl e)
      with None rd "1.prems" show ?thesis by (simp add: readToEndOfBody.simps [of toRead c])
    next
      case (Inr b)
      with None rd "1.prems"
      have "readToEndOfBody toRead (c\<lparr>conn := nc, buf := buf c @ b\<rparr>) = (Inr p, c')"
        by (simp add: readToEndOfBody.simps [of toRead c])
      from "1.IH" [OF None rd [symmetric] Inr this] show ?thesis .
    qed
  qed
qed


lemma take_drop_append_left:
  "k + n \<le> length a \<Longrightarrow> take n (drop k (a @ b)) = take n (drop k a)"
  by simp

lemma first_close_position:
  assumes p: "p \<noteq> []"
    and first: "\<forall>k. 0 < k \<and> k < length p \<longrightarrow> take 5 (drop k (p @ sentinel)) \<noteq> sentinel"
  shows "List.find (closesAt (p @ sentinel @ rest)) [0..<length (p @ sentinel @ rest)] =
           Some (length p + 4)"
proof -
  let ?s = "p @ sentinel @ rest"
  have here: "closesAt ?s (length p + 4)"
    using p by (simp add: closesAt_def)
  have "\<not> closesAt ?s j" if j: "j < length p + 4" for j
  proof
    assume c: "closesAt ?s j"
    then have j4: "4 < j" and s: "take 5 (drop (j - 4) ?s) = sentinel"
      unfolding closesAt_def by blast+
    from j j4 have k: "0 < j - 4 \<and> j - 4 < length p" by arith
    from j j4 have "j - 4 + 5 \<le> length (p @ sentinel)" by simp
    then have "take 5 (drop (j - 4) ((p @ sentinel) @ rest)) = take 5 (drop (j - 4) (p @ sentinel))"
      by (rule take_drop_append_left)
    then have "take 5 (drop (j - 4) ?s) = take 5 (drop (j - 4) (p @ sentinel))"
      unfolding append_assoc .
    with s have "take 5 (drop (j - 4) (p @ sentinel)) = sentinel" by (simp only:)
    with first k show False by blast
  qed
  moreover have "length p + 4 < length ?s" by simp
  ultimately show ?thesis using here unfolding find_upt_Some by blast
qed

lemma all_between_iff: "(\<forall>k. 0 < k \<and> k < n \<longrightarrow> P k) \<longleftrightarrow> list_all P [1..<n]"
  by (auto simp: list_all_iff)

text \<open>
  C8. \<open>readToEndOfBody\<close> ends the body only at the five bytes CR LF "." CR LF. However
  the bytes are cut into segments (and whatever a read of 1024 bytes makes of them),
  when the buffer followed by the segments is a non-empty text \<open>p\<close>, the sentinel and a
  rest, and no sentinel starts inside \<open>p\<close> after its first byte, the payload is \<open>p\<close>.
  Conversely a returned payload is non-empty, is followed in the buffer by the sentinel,
  and no sentinel starts inside it after its first byte. (A sentinel at the very front of
  the buffer is not seen: that is C10.) The witness is the body \<open>line1 CRLF .. CRLF more\<close>
  cut into four segments that split the sentinel, and the same body in one segment: the
  line of two dots does not end it.
\<close>

theorem readToEndOfBody_exact_sentinel:
  "(incoming (conn c) = map Data segs @ t \<and>
    buf c @ concat segs = p @ sentinel @ rest \<and> p \<noteq> [] \<and>
    (\<forall>k. 0 < k \<and> k < length p \<longrightarrow> take 5 (drop k (p @ sentinel)) \<noteq> sentinel)
    \<longrightarrow> fst (readToEndOfBody toRead c) = Inr p) \<and>
   (readToEndOfBody toRead c = (Inr q, c')
    \<longrightarrow> q \<noteq> [] \<and> (\<exists>rest'. buf c' = q @ sentinel @ rest') \<and>
        (\<forall>k. 0 < k \<and> k < length q \<longrightarrow> take 5 (drop k (buf c')) \<noteq> sentinel))"
proof (intro conjI impI)
  assume a: "incoming (conn c) = map Data segs @ t \<and>
    buf c @ concat segs = p @ sentinel @ rest \<and> p \<noteq> [] \<and>
    (\<forall>k. 0 < k \<and> k < length p \<longrightarrow> take 5 (drop k (p @ sentinel)) \<noteq> sentinel)"
  let ?all = "buf c @ arriving (incoming (conn c))"
  from a have "?all = (buf c @ concat segs) @ arriving t"
    by (simp add: arriving_Data)
  with a have all: "?all = p @ sentinel @ (rest @ arriving t)" by simp
  from a have "List.find (closesAt (p @ sentinel @ (rest @ arriving t)))
      [0..<length (p @ sentinel @ (rest @ arriving t))] = Some (length p + 4)"
    by (intro first_close_position) simp_all
  then have "List.find (closesAt ?all) [0..<length ?all] = Some (length p + 4)"
    unfolding all .
  then have "fst (readToEndOfBody toRead c) = Inr (take (length p + 4 - 4) ?all)"
    by (rule readToEndOfBody_first_close)
  then show "fst (readToEndOfBody toRead c) = Inr p"
    unfolding all by simp
next
  assume "readToEndOfBody toRead c = (Inr q, c')"
  then have *: "q \<noteq> [] \<and> (\<exists>rest. buf c' = q @ sentinel @ rest) \<and>
     (\<forall>k. 0 < k \<and> k < length q \<longrightarrow> take 5 (drop k (buf c')) \<noteq> sentinel)"
    by (rule readToEndOfBody_sound)
  from * show "q \<noteq> []" by blast
  from * show "\<exists>rest'. buf c' = q @ sentinel @ rest'" by blast
  from * show "\<forall>k. 0 < k \<and> k < length q \<longrightarrow> take 5 (drop k (buf c')) \<noteq> sentinel" by blast
qed

theorem readToEndOfBody_exact_sentinel_witness:
  "fst (readToEndOfBody 0 (accepted (peer
      [''line1'' @ crlf @ ''..'', crlf @ ''more'' @ [CR], [LF, DOT, CR], [LF]]))) =
     Inr (''line1'' @ crlf @ ''..'' @ crlf @ ''more'') \<and>
   readToEndOfBody 0 (accepted (peer [''line1'' @ crlf @ ''..'' @ crlf @ ''more'' @ sentinel])) =
     (Inr (''line1'' @ crlf @ ''..'' @ crlf @ ''more''),
      \<lparr>conn = peer [], ident = 1, buf = ''line1'' @ crlf @ ''..'' @ crlf @ ''more'' @ sentinel\<rparr>) \<and>
   (\<exists>rest'. ''line1'' @ crlf @ ''..'' @ crlf @ ''more'' @ sentinel =
      (''line1'' @ crlf @ ''..'' @ crlf @ ''more'') @ sentinel @ rest')"
proof -
  let ?p = "''line1'' @ crlf @ ''..'' @ crlf @ ''more''"
  let ?segs = "[''line1'' @ crlf @ ''..'', crlf @ ''more'' @ [CR], [LF, DOT, CR], [LF]]"
  let ?c = "accepted (peer ?segs)"
  let ?d = "accepted (peer [''line1'' @ crlf @ ''..'' @ crlf @ ''more'' @ sentinel])"
  let ?d' = "\<lparr>conn = peer [], ident = 1, buf = ''line1'' @ crlf @ ''..'' @ crlf @ ''more'' @ sentinel\<rparr>"
  have 1: "incoming (conn ?c) = map Data ?segs @ []" by (simp add: accepted_def peer_def)
  have 2: "buf ?c @ concat ?segs = ?p @ sentinel @ []" by (simp add: accepted_def)
  have 3: "?p \<noteq> []" by simp
  have 4: "\<forall>k. 0 < k \<and> k < length ?p \<longrightarrow> take 5 (drop k (?p @ sentinel)) \<noteq> sentinel"
    unfolding all_between_iff by code_simp
  have run: "readToEndOfBody 0 ?d = (Inr ?p, ?d')"
    by code_simp
  from readToEndOfBody_exact_sentinel [of ?c ?segs "[]" ?p "[]" 0 ?p ?d'] 1 2 3 4
  have a: "fst (readToEndOfBody 0 ?c) = Inr ?p" by blast
  from readToEndOfBody_exact_sentinel [of ?d "[]" "[]" ?p "[]" 0 ?p ?d'] run
  have "\<exists>rest'. buf ?d' = ?p @ sentinel @ rest'" by blast
  then have b: "\<exists>rest'. ''line1'' @ crlf @ ''..'' @ crlf @ ''more'' @ sentinel = ?p @ sentinel @ rest'"
    by (simp only: connection.select_convs)
  from a run b show ?thesis by (intro conjI)
qed

text \<open>
  C10. \<open>isBodyClose\<close> holds only at indices above 4, so a sentinel that fills the
  first five bytes of the buffer is not recognised: when the only sentinel of the
  buffer starts at offset 0, \<open>readToEndOfBody\<close> does not return but goes on to the
  transport read. The witness is the buffer that is exactly the sentinel (an empty
  body): with the peer closed the call fails with \<open>EOF\<close>, and with one more byte to
  arrive it reads that byte and then fails the same way.
\<close>

theorem isBodyClose_skips_leading_sentinel:
  "(isBodyClose c i \<longrightarrow> 4 < i) \<and>
   ((\<forall>k. take 5 (drop k (buf c)) = sentinel \<longrightarrow> k = 0) \<longrightarrow>
      readToEndOfBody toRead c =
        (case Read 1024 (conn c) of
           (Inl err, nc) \<Rightarrow> (Inl err, c\<lparr>conn := nc\<rparr>)
         | (Inr b, nc) \<Rightarrow> readToEndOfBody toRead (c\<lparr>conn := nc, buf := buf c @ b\<rparr>)))"
proof (intro conjI impI)
  show "4 < i" if "isBodyClose c i" using that by (simp add: isBodyClose_def)
next
  assume only: "\<forall>k. take 5 (drop k (buf c)) = sentinel \<longrightarrow> k = 0"
  have "\<not> isBodyClose c j" if "j < length (buf c)" for j
  proof
    assume "isBodyClose c j"
    with that have "4 < j" "take 5 (drop (j - 4) (buf c)) = sentinel"
      by (simp_all add: isBodyClose_iff)
    with only show False by (metis diff_is_0_eq not_le)
  qed
  then have "List.find (isBodyClose c) [0..<length (buf c)] = None"
    by (simp add: find_upt_None)
  then show "readToEndOfBody toRead c =
        (case Read 1024 (conn c) of
           (Inl err, nc) \<Rightarrow> (Inl err, c\<lparr>conn := nc\<rparr>)
         | (Inr b, nc) \<Rightarrow> readToEndOfBody toRead (c\<lparr>conn := nc, buf := buf c @ b\<rparr>))"
    by (simp add: readToEndOfBody.simps [of toRead c])
qed

theorem isBodyClose_skips_leading_sentinel_witness:
  "isBodyClose \<lparr>conn = peer [], ident = 1, buf = ''a'' @ sentinel\<rparr> 5 \<and> (4::nat) < 5 \<and>
   \<not> isBodyClose \<lparr>conn = peer [], ident = 1, buf = sentinel\<rparr> 4 \<and>
   readToEndOfBody 0 \<lparr>conn = peer [], ident = 1, buf = sentinel\<rparr> =
     (Inl EOF, \<lparr>conn = peer [], ident = 1, buf = sentinel\<rparr>) \<and>
   readToEndOfBody 0 \<lparr>conn = peer [''x''], ident = 1, buf = sentinel\<rparr> =
     (Inl EOF, \<lparr>conn = peer [], ident = 1, buf = sentinel @ ''x''\<rparr>)"
proof -
  let ?c = "\<lparr>conn = peer [], ident = 1, buf = sentinel\<rparr>"
  let ?a = "\<lparr>conn = peer [], ident = 1, buf = ''a'' @ sentinel\<rparr>"
  have a: "isBodyClose ?a 5" by (simp add: isBodyClose_def)
  have n: "\<not> isBodyClose ?c 4" by (simp add: isBodyClose_def)
  have only: "\<forall>k. take 5 (drop k (buf ?c)) = sentinel \<longrightarrow> k = 0"
  proof (intro allI impI)
    fix k assume "take 5 (drop k (buf ?c)) = sentinel"
    then have "k + 4 < length (buf ?c)" by (rule take5_sentinel_length)
    then show "k = 0" by simp
  qed
  have rd: "Read 1024 (conn ?c) = (Inl EOF, conn ?c)" by (simp add: Read_def peer_def)
  from isBodyClose_skips_leading_sentinel [of ?a 5 0] a have 1: "(4::nat) < 5" by blast
  from isBodyClose_skips_leading_sentinel [of ?c 4 0] only rd
  have 2: "readToEndOfBody 0 ?c = (Inl EOF, ?c)" by simp
  have 3: "readToEndOfBody 0 \<lparr>conn = peer [''x''], ident = 1, buf = sentinel\<rparr> =
     (Inl EOF, \<lparr>conn = peer [], ident = 1, buf = sentinel @ ''x''\<rparr>)" by code_simp
  from a 1 n 2 3 show ?thesis by blast
qed

text \<open>
  C2. The claim: every framing operation removes the payload and its delimiter from the
  front of the buffer, \<open>readToEndOfBody\<close> included. \<open>readLine\<close> (line 59) and
  \<open>readMultiLine\<close> (line 77) assign the rest to \<open>c.buf\<close>; \<open>readToEndOfBody\<close> returns at
  line 111 without touching \<open>c.buf\<close>. On the one segment \<open>hello\<close>, sentinel, \<open>next\<close> it
  returns \<open>hello\<close> and the buffer still holds the payload, the sentinel and \<open>next\<close>;
  \<open>readLine\<close> and \<open>readMultiLine\<close> on \<open>hello CRLF next\<close> keep \<open>next\<close> alone.
\<close>

theorem readToEndOfBody_keeps_buffer:
  "readToEndOfBody 0 (accepted (peer [''hello'' @ sentinel @ ''next''])) =
     (Inr ''hello'', \<lparr>conn = peer [], ident = 1, buf = ''hello'' @ sentinel @ ''next''\<rparr>) \<and>
   readLine (accepted (peer [''hello'' @ crlf @ ''next''])) =
     (Inr ''hello'', \<lparr>conn = peer [], ident = 1, buf = ''next''\<rparr>) \<and>
   readMultiLine (accepted (peer [''hello'' @ crlf @ ''next''])) =
     Some (Inr ''hello'', \<lparr>conn = peer [], ident = 1, buf = ''next''\<rparr>)"
  apply (intro conjI)
    apply code_simp
   apply code_simp
  apply code_simp
  done

subsection \<open>\<open>readMultiLine\<close>: where a header block ends\<close>

text \<open>
  The test of the inner loop of \<open>readMultiLine\<close> (lines 70 to 74): index \<open>i\<close> holds a
  byte other than space and tab, and the two bytes before it are CR LF.
\<close>

definition headerEnd :: "connection \<Rightarrow> nat \<Rightarrow> bool" where
  "headerEnd c i \<longleftrightarrow>
     1 < i \<and> buf c ! i \<noteq> SP \<and> buf c ! i \<noteq> TAB \<and> buf c ! (i - 2) = CR \<and> buf c ! (i - 1) = LF"

lemma multiLineScan_find:
  "multiLineScan c is nmr =
     (case List.find (headerEnd c) is of
        Some i \<Rightarrow> Inl i
      | None \<Rightarrow> Inr (if is = [] then nmr else isBodyClose c (last is)))"
proof (induction "is" arbitrary: nmr)
  case Nil
  show ?case by simp
next
  case (Cons i "is")
  show ?case
  proof (cases "headerEnd c i")
    case True
    then show ?thesis by (simp add: headerEnd_def)
  next
    case False
    then have "multiLineScan c (i # is) nmr = multiLineScan c is (isBodyClose c i)"
      by (auto simp: headerEnd_def Let_def)
    with False Cons.IH [of "isBodyClose c i"] show ?thesis
      by (cases "is = []") (simp_all split: option.splits)
  qed
qed

lemma multiLineScan_never_noMoreReads:
  "multiLineScan c [0..<length (buf c)] False \<noteq> Inr True"
proof
  assume a: "multiLineScan c [0..<length (buf c)] False = Inr True"
  let ?n = "length (buf c)"
  from a have none: "List.find (headerEnd c) [0..<?n] = None"
    by (auto simp: multiLineScan_find split: option.splits)
  from a have ne: "[0..<?n] \<noteq> []" and "isBodyClose c (last [0..<?n])"
    by (auto simp: multiLineScan_find split: option.splits if_splits)
  then have bc: "isBodyClose c (?n - 1)" by simp
  then have "4 < ?n - 1" "buf c ! (?n - 1 - 4) = CR" "buf c ! (?n - 1 - 3) = LF"
    "buf c ! (?n - 1 - 2) = DOT"
    by (simp_all add: isBodyClose_def)
  then have "headerEnd c (?n - 3)"
    by (simp add: headerEnd_def numeral_eq_Suc)
  moreover from \<open>4 < ?n - 1\<close> have "?n - 3 < ?n" by simp
  ultimately show False using none by (auto simp: find_upt_None)
qed

lemma readMultiLine_found:
  assumes "List.find (headerEnd c) [0..<length (buf c)] = Some i"
  shows "readMultiLine c = Some (Inr (take (i - 2) (buf c)), c\<lparr>buf := drop i (buf c)\<rparr>)"
  using assms by (subst readMultiLine.simps) (simp add: multiLineScan_find)

lemma readMultiLine_reads:
  assumes "List.find (headerEnd c) [0..<length (buf c)] = None"
  shows "readMultiLine c =
     (case Read 1024 (conn c) of
        (Inl err, nc) \<Rightarrow> Some (Inl err, c\<lparr>conn := nc\<rparr>)
      | (Inr b, nc) \<Rightarrow> readMultiLine (c\<lparr>conn := nc, buf := buf c @ b\<rparr>))"
proof -
  from assms obtain nmr where s: "multiLineScan c [0..<length (buf c)] False = Inr nmr"
    by (simp add: multiLineScan_find)
  with multiLineScan_never_noMoreReads [of c] have "\<not> nmr" by auto
  with s show ?thesis by (subst readMultiLine.simps) simp
qed

text \<open>
  The scan never ends with \<open>noMoreReads\<close> set (a sentinel that ends at the last index has
  its CR LF "." two indices earlier, where the scan returns), so the branch that goes
  round without reading is never taken and \<open>readMultiLine\<close> always returns.
\<close>

lemma readMultiLine_returns: "readMultiLine c \<noteq> None"
proof (induction "pending (incoming (conn c))" arbitrary: c rule: less_induct)
  case less
  show ?case
  proof (cases "List.find (headerEnd c) [0..<length (buf c)]")
    case (Some i)
    then show ?thesis by (simp add: readMultiLine_found)
  next
    case None
    obtain r nc where rd: "Read 1024 (conn c) = (r, nc)" by (cases "Read 1024 (conn c)")
    show ?thesis
    proof (cases r)
      case (Inl e)
      with rd None show ?thesis by (simp add: readMultiLine_reads)
    next
      case (Inr b)
      with rd have "pending (incoming nc) < pending (incoming (conn c))"
        by (auto dest: Read_pending)
      then have "readMultiLine (c\<lparr>conn := nc, buf := buf c @ b\<rparr>) \<noteq> None"
        by (intro less) simp
      with rd Inr None show ?thesis by (simp add: readMultiLine_reads)
    qed
  qed
qed

lemma headerEnd_split:
  assumes "headerEnd c i" "i < length (buf c)"
  shows "buf c = take (i - 2) (buf c) @ crlf @ drop i (buf c)"
proof -
  from assms have i: "1 < i" and cr: "buf c ! (i - 2) = CR" and lf: "buf c ! (i - 1) = LF"
    by (simp_all add: headerEnd_def)
  have "drop (i - 2) (buf c) = buf c ! (i - 2) # drop (Suc (i - 2)) (buf c)"
    using assms(2) i by (intro Cons_nth_drop_Suc [symmetric]) simp
  moreover have "drop (Suc (i - 2)) (buf c) = buf c ! (i - 1) # drop (Suc (i - 1)) (buf c)"
    using assms(2) i by (metis Cons_nth_drop_Suc Suc_1 Suc_diff_Suc less_imp_diff_less numeral_2_eq_2 diff_Suc_eq_diff_pred)
  moreover have "Suc (i - 1) = i" using i by simp
  ultimately have "drop (i - 2) (buf c) = crlf @ drop i (buf c)" using cr lf by simp
  then have "take (i - 2) (buf c) @ crlf @ drop i (buf c) = take (i - 2) (buf c) @ drop (i - 2) (buf c)"
    by simp
  then show ?thesis by simp
qed

lemma sentinel_headerEnd:
  assumes "buf c = pre @ sentinel @ post"
  shows "headerEnd c (length pre + 2)" "length pre + 2 < length (buf c)"
  using assms by (simp_all add: headerEnd_def nth_append)

lemma multiLineScan_buf:
  "buf c = buf d \<Longrightarrow> multiLineScan c is nmr = multiLineScan d is nmr"
  by (induction "is" arbitrary: nmr) (auto simp: isBodyClose_def Let_def)

text \<open>
  C3, as the code has it. On the buffer \<open>Subject: hi CRLF SP SP there CRLF CRLF\<close>
  \<open>readMultiLine\<close> returns, without a transport read, the block up to the CRLF that ends
  it: the payload is \<open>Subject: hi CRLF SP SP there\<close>, with the CRLF and the white space of
  the continuation line still in it, and the buffer keeps the last CRLF. The next call,
  on that CRLF alone, reads the transport; it returns the empty payload once the byte
  after the CRLF is there and is neither space nor tab, and that byte stays in the
  buffer.
\<close>

theorem readMultiLine_keeps_folding:
  "readMultiLine \<lparr>conn = nc, ident = n, buf = ''Subject: hi'' @ crlf @ ''  there'' @ crlf @ crlf\<rparr> =
     Some (Inr (''Subject: hi'' @ crlf @ ''  there''), \<lparr>conn = nc, ident = n, buf = crlf\<rparr>) \<and>
   readMultiLine \<lparr>conn = nc, ident = n, buf = crlf\<rparr> =
     (case Read 1024 nc of
        (Inl err, nc') \<Rightarrow> Some (Inl err, \<lparr>conn = nc', ident = n, buf = crlf\<rparr>)
      | (Inr b, nc') \<Rightarrow> readMultiLine \<lparr>conn = nc', ident = n, buf = crlf @ b\<rparr>) \<and>
   (d \<noteq> SP \<and> d \<noteq> TAB \<longrightarrow>
      readMultiLine \<lparr>conn = nc, ident = n, buf = crlf @ d # ds\<rparr> =
        Some (Inr [], \<lparr>conn = nc, ident = n, buf = d # ds\<rparr>))"
proof (intro conjI impI)
  let ?b = "''Subject: hi'' @ crlf @ ''  there'' @ crlf @ crlf"
  let ?c = "\<lparr>conn = nc, ident = n, buf = ?b\<rparr>"
  have "multiLineScan ?c [0..<length ?b] False =
        multiLineScan \<lparr>conn = peer [], ident = 1, buf = ?b\<rparr> [0..<length ?b] False"
    by (rule multiLineScan_buf) simp
  also have "\<dots> = Inl 22" by code_simp
  finally have "multiLineScan ?c [0..<length (buf ?c)] False = Inl 22" by simp
  then show "readMultiLine ?c =
     Some (Inr (''Subject: hi'' @ crlf @ ''  there''), \<lparr>conn = nc, ident = n, buf = crlf\<rparr>)"
    by (subst readMultiLine.simps) simp
next
  let ?c = "\<lparr>conn = nc, ident = n, buf = crlf\<rparr>"
  have "List.find (headerEnd ?c) [0..<length (buf ?c)] = None"
    by (simp add: find_upt_None headerEnd_def)
  from readMultiLine_reads [OF this]
  show "readMultiLine ?c =
     (case Read 1024 nc of
        (Inl err, nc') \<Rightarrow> Some (Inl err, \<lparr>conn = nc', ident = n, buf = crlf\<rparr>)
      | (Inr b, nc') \<Rightarrow> readMultiLine \<lparr>conn = nc', ident = n, buf = crlf @ b\<rparr>)"
    by (simp split: prod.splits sum.splits)
next
  assume d: "d \<noteq> SP \<and> d \<noteq> TAB"
  let ?c = "\<lparr>conn = nc, ident = n, buf = crlf @ d # ds\<rparr>"
  have "headerEnd ?c 2" using d by (simp add: headerEnd_def)
  moreover have "\<forall>j<2. \<not> headerEnd ?c j" by (simp add: headerEnd_def)
  ultimately have "List.find (headerEnd ?c) [0..<length (buf ?c)] = Some 2"
    unfolding find_upt_Some by simp
  from readMultiLine_found [OF this]
  show "readMultiLine ?c = Some (Inr [], \<lparr>conn = nc, ident = n, buf = d # ds\<rparr>)" by simp
qed

theorem readMultiLine_keeps_folding_witness:
  "readMultiLine \<lparr>conn = peer [], ident = 1, buf = crlf @ ''body''\<rparr> =
     Some (Inr [], \<lparr>conn = peer [], ident = 1, buf = ''body''\<rparr>) \<and>
   readMultiLine \<lparr>conn = peer [''body''], ident = 1, buf = crlf\<rparr> =
     Some (Inr [], \<lparr>conn = peer [], ident = 1, buf = ''body''\<rparr>)"
proof -
  have 1: "CHR ''b'' \<noteq> SP \<and> CHR ''b'' \<noteq> TAB" by simp
  have rd: "Read 1024 (peer [''body'']) = (Inr ''body'', peer [])"
    by (simp add: Read_def peer_def)
  from readMultiLine_keeps_folding [of "peer []" 1 "CHR ''b''" "''ody''"] 1
  have a: "readMultiLine \<lparr>conn = peer [], ident = 1, buf = crlf @ ''body''\<rparr> =
     Some (Inr [], \<lparr>conn = peer [], ident = 1, buf = ''body''\<rparr>)" by blast
  from readMultiLine_keeps_folding [of "peer [''body'']" 1 "CHR ''b''" "''ody''"] rd
  have "readMultiLine \<lparr>conn = peer [''body''], ident = 1, buf = crlf\<rparr> =
     readMultiLine \<lparr>conn = peer [], ident = 1, buf = crlf @ ''body''\<rparr>" by simp
  with a show ?thesis by simp
qed

text \<open>
  C3 as the claim states it fails on its own input: the payload is not the unfolded line
  \<open>Subject: hi SP SP there\<close>, and with nothing more to arrive the second call does not
  return an empty payload but the transport's error.
\<close>

theorem readMultiLine_folding_counterexample:
  "readMultiLine \<lparr>conn = peer [], ident = 1,
       buf = ''Subject: hi'' @ crlf @ ''  there'' @ crlf @ crlf\<rparr> =
     Some (Inr (''Subject: hi'' @ crlf @ ''  there''), \<lparr>conn = peer [], ident = 1, buf = crlf\<rparr>) \<and>
   ''Subject: hi'' @ crlf @ ''  there'' \<noteq> ''Subject: hi  there'' \<and>
   readMultiLine \<lparr>conn = peer [], ident = 1, buf = crlf\<rparr> =
     Some (Inl EOF, \<lparr>conn = peer [], ident = 1, buf = crlf\<rparr>)"
  apply (intro conjI)
    apply code_simp
   apply simp
  apply code_simp
  done

text \<open>
  C6, as the code has it. When the sentinel is anywhere in the buffer that
  \<open>readMultiLine\<close> scans, the call returns without a transport read (the connection is
  unchanged but for the buffer): the sentinel's own CR LF "." is a CRLF followed by a
  byte other than space and tab, so the scan returns at it or before it. The payload is
  the buffer before the first CRLF that such a byte follows, the buffer keeps everything
  from that byte on, and the payload is empty exactly when the buffer starts with such a
  CRLF.
\<close>

theorem readMultiLine_with_sentinel_buffered:
  "buf c = pre @ sentinel @ post \<longrightarrow>
     (\<exists>line rest.
        readMultiLine c = Some (Inr line, c\<lparr>buf := rest\<rparr>) \<and>
        buf c = line @ crlf @ rest \<and> rest \<noteq> [] \<and> hd rest \<noteq> SP \<and> hd rest \<noteq> TAB \<and>
        length line \<le> length pre \<and>
        (\<forall>j. j < length line \<longrightarrow>
           \<not> (buf c ! j = CR \<and> buf c ! (j + 1) = LF \<and>
              buf c ! (j + 2) \<noteq> SP \<and> buf c ! (j + 2) \<noteq> TAB)) \<and>
        (line = [] \<longleftrightarrow>
           buf c ! 0 = CR \<and> buf c ! 1 = LF \<and> buf c ! 2 \<noteq> SP \<and> buf c ! 2 \<noteq> TAB))"
proof
  assume b: "buf c = pre @ sentinel @ post"
  let ?n = "length (buf c)"
  from b have h: "headerEnd c (length pre + 2)" and l: "length pre + 2 < ?n"
    by (rule sentinel_headerEnd)+
  then have "List.find (headerEnd c) [0..<?n] \<noteq> None"
    by (auto simp: find_upt_None)
  then obtain i where f: "List.find (headerEnd c) [0..<?n] = Some i" by blast
  then have i: "i < ?n" "headerEnd c i" "\<forall>j<i. \<not> headerEnd c j"
    by (simp_all add: find_upt_Some)
  let ?line = "take (i - 2) (buf c)" and ?rest = "drop i (buf c)"
  from i have i2: "1 < i" by (simp add: headerEnd_def)
  have run: "readMultiLine c = Some (Inr ?line, c\<lparr>buf := ?rest\<rparr>)"
    using f by (rule readMultiLine_found)
  have split: "buf c = ?line @ crlf @ ?rest" using i(2,1) by (rule headerEnd_split)
  have ne: "?rest \<noteq> []" using i(1) by simp
  have hd: "hd ?rest = buf c ! i" using i(1) by (simp add: hd_drop_conv_nth)
  with i(2) have ws: "hd ?rest \<noteq> SP" "hd ?rest \<noteq> TAB" by (simp_all add: headerEnd_def)
  have len: "length ?line = i - 2" using i(1) by simp
  have "i \<le> length pre + 2" using i(3) h by (meson not_less)
  with len have le: "length ?line \<le> length pre" by simp
  have first: "\<forall>j. j < length ?line \<longrightarrow>
      \<not> (buf c ! j = CR \<and> buf c ! (j + 1) = LF \<and>
         buf c ! (j + 2) \<noteq> SP \<and> buf c ! (j + 2) \<noteq> TAB)"
  proof (intro allI impI notI)
    fix j assume j: "j < length ?line"
      and m: "buf c ! j = CR \<and> buf c ! (j + 1) = LF \<and>
         buf c ! (j + 2) \<noteq> SP \<and> buf c ! (j + 2) \<noteq> TAB"
    from j have "j + 2 < i" unfolding len by arith
    moreover from m have "headerEnd c (j + 2)" by (simp add: headerEnd_def)
    ultimately show False using i(3) by blast
  qed
  have empty: "?line = [] \<longleftrightarrow>
      buf c ! 0 = CR \<and> buf c ! 1 = LF \<and> buf c ! 2 \<noteq> SP \<and> buf c ! 2 \<noteq> TAB"
  proof
    assume "?line = []"
    with len i2 have "i = 2" by simp
    with i(2) show "buf c ! 0 = CR \<and> buf c ! 1 = LF \<and> buf c ! 2 \<noteq> SP \<and> buf c ! 2 \<noteq> TAB"
      by (simp add: headerEnd_def)
  next
    assume "buf c ! 0 = CR \<and> buf c ! 1 = LF \<and> buf c ! 2 \<noteq> SP \<and> buf c ! 2 \<noteq> TAB"
    then have "headerEnd c 2" by (simp add: headerEnd_def)
    with i(3) have "\<not> 2 < i" by blast
    with len show "?line = []" by simp
  qed
  from run split ne ws le first empty
  show "\<exists>line rest.
        readMultiLine c = Some (Inr line, c\<lparr>buf := rest\<rparr>) \<and>
        buf c = line @ crlf @ rest \<and> rest \<noteq> [] \<and> hd rest \<noteq> SP \<and> hd rest \<noteq> TAB \<and>
        length line \<le> length pre \<and>
        (\<forall>j. j < length line \<longrightarrow>
           \<not> (buf c ! j = CR \<and> buf c ! (j + 1) = LF \<and>
              buf c ! (j + 2) \<noteq> SP \<and> buf c ! (j + 2) \<noteq> TAB)) \<and>
        (line = [] \<longleftrightarrow>
           buf c ! 0 = CR \<and> buf c ! 1 = LF \<and> buf c ! 2 \<noteq> SP \<and> buf c ! 2 \<noteq> TAB)"
    by blast
qed

theorem readMultiLine_with_sentinel_buffered_witness:
  "\<exists>line rest.
     readMultiLine \<lparr>conn = peer [], ident = 1, buf = ''Subject: hi'' @ sentinel\<rparr> =
       Some (Inr line, \<lparr>conn = peer [], ident = 1, buf = rest\<rparr>) \<and>
     ''Subject: hi'' @ sentinel = line @ crlf @ rest \<and> length line \<le> length ''Subject: hi''"
proof -
  let ?c = "\<lparr>conn = peer [], ident = 1, buf = ''Subject: hi'' @ sentinel\<rparr>"
  have "buf ?c = ''Subject: hi'' @ sentinel @ []" by simp
  with readMultiLine_with_sentinel_buffered [of ?c "''Subject: hi''" "[]"]
  obtain line rest where "readMultiLine ?c = Some (Inr line, ?c\<lparr>buf := rest\<rparr>)"
    "buf ?c = line @ crlf @ rest" "length line \<le> length ''Subject: hi''" by blast
  then show ?thesis by auto
qed

text \<open>
  C6 as the claim states it fails: with \<open>Subject: hi\<close> and the sentinel in the buffer the
  call reports no empty line but the header \<open>Subject: hi\<close>, which the header loop takes
  as a header (its trimmed text is not empty), and the next call, on the remaining
  \<open>. CRLF\<close>, goes to the transport.
\<close>

theorem readMultiLine_sentinel_counterexample:
  "readMultiLine \<lparr>conn = peer [], ident = 1, buf = ''Subject: hi'' @ sentinel\<rparr> =
     Some (Inr ''Subject: hi'', \<lparr>conn = peer [], ident = 1, buf = ''.'' @ crlf\<rparr>) \<and>
   ''Subject: hi'' \<noteq> [] \<and> TrimSpace noUnicode ''Subject: hi'' \<noteq> [] \<and>
   readMultiLine \<lparr>conn = peer [], ident = 1, buf = ''.'' @ crlf\<rparr> =
     Some (Inl EOF, \<lparr>conn = peer [], ident = 1, buf = ''.'' @ crlf\<rparr>)"
  apply (intro conjI)
     apply code_simp
    apply simp
   apply code_simp
  apply code_simp
  done

subsection \<open>The driver: splitting lines and reading numbers\<close>

lemma take1_drop: "take 1 (drop i s) = [ch] \<longleftrightarrow> i < length s \<and> s ! i = ch"
proof (cases "i < length s")
  case True
  then have "drop i s = s ! i # drop (Suc i) s" by (simp add: Cons_nth_drop_Suc)
  with True show ?thesis by simp
next
  case False
  then show ?thesis by simp
qed

lemma take2_drop:
  "k + 1 < length b \<Longrightarrow> take 2 (drop k b) = [b ! k, b ! (k + 1)]"
  by (auto simp: list_eq_iff_nth_eq less_Suc_eq numeral_eq_Suc nth_Cons')

lemma Index_first:
  assumes "take (length sep) (drop k s) = sep" "k \<le> length s"
    and "\<forall>j<k. take (length sep) (drop j s) \<noteq> sep"
  shows "Index s sep = Some k"
  using assms unfolding Index_def find_upt_Some by simp

lemma Index_colon:
  assumes "CHR '':'' \<notin> set cmd"
  shows "Index (cmd @ CHR '':'' # v) '':'' = Some (length cmd)"
proof (rule Index_first)
  let ?l = "cmd @ CHR '':'' # v"
  show "take (length '':'') (drop (length cmd) ?l) = '':''" by simp
  show "length cmd \<le> length ?l" by simp
  show "\<forall>j<length cmd. take (length '':'') (drop j ?l) \<noteq> '':''"
  proof (intro allI impI notI)
    fix j assume j: "j < length cmd" and "take (length '':'') (drop j ?l) = '':''"
    then have "take 1 (drop j ?l) = [CHR '':'']" by simp
    then have "?l ! j = CHR '':''" unfolding take1_drop by blast
    with j have "cmd ! j = CHR '':''" by (simp add: nth_append)
    with j assms show False by (metis nth_mem)
  qed
qed

lemma Index_no_colon:
  assumes "CHR '':'' \<notin> set l"
  shows "Index l '':'' = None"
  unfolding Index_def find_upt_None
proof (intro allI impI notI)
  fix j assume "take (length '':'') (drop j l) = '':''"
  then have "take 1 (drop j l) = [CHR '':'']" by simp
  then have "j < length l \<and> l ! j = CHR '':''" unfolding take1_drop .
  with assms show False by (metis nth_mem)
qed

lemma Index_gt_sp:
  assumes "\<forall>j<length pre. \<not> ((pre @ CHR ''>'' # SP # post) ! j = CHR ''>'' \<and>
      (pre @ CHR ''>'' # SP # post) ! (j + 1) = SP)"
  shows "Index (pre @ CHR ''>'' # SP # post) ''> '' = Some (length pre)"
proof (rule Index_first)
  let ?v = "pre @ CHR ''>'' # SP # post"
  have len: "length ''> '' = 2" by simp
  show "take (length ''> '') (drop (length pre) ?v) = ''> ''" by simp
  show "length pre \<le> length ?v" by simp
  show "\<forall>j<length pre. take (length ''> '') (drop j ?v) \<noteq> ''> ''"
    unfolding len
  proof (intro allI impI notI)
    fix j assume j: "j < length pre" and t: "take 2 (drop j ?v) = ''> ''"
    from j have "j + 1 < length ?v" by simp
    from take2_drop [OF this] t have "[?v ! j, ?v ! (j + 1)] = ''> ''" by (simp only:)
    then have "?v ! j = CHR ''>'' \<and> ?v ! (j + 1) = SP" by simp
    with assms j show False by blast
  qed
qed

lemma Index_prefix: "Index (sep @ s) sep = Some 0"
  by (rule Index_first) simp_all

lemma HasPrefix_append: "HasPrefix (p @ s) p"
  by (simp add: HasPrefix_def)

lemma HasPrefix_Index:
  assumes "HasPrefix s p"
  shows "Index s p \<noteq> None"
proof -
  from assms have "take (length p) (drop 0 s) = p" by (simp add: HasPrefix_def)
  moreover have "0 < Suc (length s)" by simp
  ultimately show ?thesis unfolding Index_def find_upt_None by blast
qed

lemma SplitN2_colon:
  "CHR '':'' \<notin> set cmd \<Longrightarrow> SplitN2 (cmd @ CHR '':'' # v) '':'' = [cmd, v]"
  by (simp add: SplitN2_def Index_colon)

lemma SplitN2_no_colon: "CHR '':'' \<notin> set l \<Longrightarrow> SplitN2 l '':'' = [l]"
  by (simp add: SplitN2_def Index_no_colon)

lemma Atoi_intText: "intText s \<Longrightarrow> Atoi s = Inr (numberOf s)"
  by (cases s) (auto simp: Atoi_def intText_def numeric_def numberOf_def Let_def split: if_splits)

lemma Atoi_not_intText: "\<not> intText s \<Longrightarrow> Atoi s = Inl (NumError s)"
  by (cases s) (auto simp: Atoi_def intText_def numeric_def numberOf_def Let_def split: if_splits)

lemma commandLoop_step:
  assumes "line \<noteq> []" "readLine c = (Inr (cmd @ CHR '':'' # v), c1)"
    "CHR '':'' \<notin> set cmd" "ToUpper u cmd \<noteq> ''DATA''"
  shows "commandLoop u line msg sz c =
     (case declaredSize (ToUpper u cmd) v sz of
        Panic \<Rightarrow> (Panic, c1)
      | Logged err \<Rightarrow> (Logged err, c1)
      | Ok sz' \<Rightarrow>
          (case writeLn ''250 OK'' c1 of
             (Inl err, c2) \<Rightarrow> (Logged err, c2)
           | (Inr _, c2) \<Rightarrow>
               commandLoop u (cmd @ CHR '':'' # v)
                 (msg\<lparr>smtpHeaders := (smtpHeaders msg)(ToUpper u cmd \<mapsto> v)\<rparr>) sz' c2))"
  using assms by (subst commandLoop.simps) (simp add: SplitN2_colon Let_def)

lemma declaredSize_first_gt:
  assumes "\<forall>j<length pre. \<not> ((pre @ CHR ''>'' # SP # post) ! j = CHR ''>'' \<and>
      (pre @ CHR ''>'' # SP # post) ! (j + 1) = SP)"
  shows "declaredSize ''MAIL FROM'' (pre @ CHR ''>'' # SP # post) sz =
     (if HasPrefix post ''SIZE='' then
        (case Atoi (SplitN2 post ''SIZE='' ! 1) of Inl err \<Rightarrow> Logged err | Inr n \<Rightarrow> Ok n)
      else Ok sz)"
  using Index_gt_sp [OF assms] by (simp add: declaredSize_def SplitN2_def Let_def)

lemma declaredSize_SIZE:
  assumes "\<forall>j<length pre. \<not> ((pre @ CHR ''>'' # SP # post) ! j = CHR ''>'' \<and>
      (pre @ CHR ''>'' # SP # post) ! (j + 1) = SP)"
    and "post = ''SIZE='' @ s"
  shows "declaredSize ''MAIL FROM'' (pre @ CHR ''>'' # SP # post) sz =
     (case Atoi s of Inl err \<Rightarrow> Logged err | Inr n \<Rightarrow> Ok n)"
proof -
  have p: "HasPrefix post ''SIZE=''" unfolding assms(2) by (rule HasPrefix_append)
  have "Index (''SIZE='' @ s) ''SIZE='' = Some 0" by (rule Index_prefix)
  then have "SplitN2 (''SIZE='' @ s) ''SIZE='' = [[], s]" by (simp add: SplitN2_def)
  then have "SplitN2 post ''SIZE='' ! 1 = s" unfolding assms(2) by simp
  with p show ?thesis using declaredSize_first_gt [OF assms(1)] by simp
qed

lemma all_below_iff: "(\<forall>j<n. P j) \<longleftrightarrow> list_all P [0..<n]"
  by (auto simp: list_all_iff)

lemma HasPrefix_split: "HasPrefix s p \<Longrightarrow> s = p @ drop (length p) s"
  by (metis HasPrefix_def append_take_drop_id)

text \<open>
  C7, as the code has it. A command line \<open>cmd:value\<close> whose keyword upper-cases to
  \<open>MAIL FROM\<close>, with \<open>value\<close> cut at its first \<open>>\<close> followed by a space into \<open>pre\<close> and
  \<open>post\<close>. (i) When \<open>post\<close> is \<open>SIZE=\<close> followed, to the end of the value, by a decimal
  number that the 64-bit \<open>int\<close> holds, the loop acknowledges and goes on with that number
  as \<open>size\<close>. (ii) When \<open>post\<close> does not begin with \<open>SIZE=\<close>, whether or not a \<open>SIZE=\<close>
  stands further on, it goes on with \<open>size\<close> as it was, which is 0 from the start of the
  loop. (iii) When \<open>post\<close> is \<open>SIZE=\<close> followed by anything else (a text that is no
  number, a number with a further parameter after it, a number beyond \<open>int\<close>), \<open>handle\<close>
  logs the \<open>NumError\<close> and returns, with no acknowledgement written.
\<close>

theorem mail_from_declared_size:
  assumes "line \<noteq> []"
    and "readLine c = (Inr (cmd @ '':'' @ pre @ ''> '' @ post), c1)"
    and "CHR '':'' \<notin> set cmd" and "ToUpper u cmd = ''MAIL FROM''"
    and "\<forall>j<length pre. \<not> ((pre @ ''> '' @ post) ! j = CHR ''>'' \<and> (pre @ ''> '' @ post) ! (j + 1) = SP)"
  shows
    "(post = ''SIZE='' @ s \<and> intText s \<longrightarrow>
        commandLoop u line msg sz c =
          (case writeLn ''250 OK'' c1 of
             (Inl err, c2) \<Rightarrow> (Logged err, c2)
           | (Inr _, c2) \<Rightarrow>
               commandLoop u (cmd @ '':'' @ pre @ ''> '' @ post)
                 (msg\<lparr>smtpHeaders := (smtpHeaders msg)(''MAIL FROM'' \<mapsto> pre @ ''> '' @ post)\<rparr>)
                 (numberOf s) c2)) \<and>
     ((\<forall>t. post \<noteq> ''SIZE='' @ t) \<longrightarrow>
        commandLoop u line msg sz c =
          (case writeLn ''250 OK'' c1 of
             (Inl err, c2) \<Rightarrow> (Logged err, c2)
           | (Inr _, c2) \<Rightarrow>
               commandLoop u (cmd @ '':'' @ pre @ ''> '' @ post)
                 (msg\<lparr>smtpHeaders := (smtpHeaders msg)(''MAIL FROM'' \<mapsto> pre @ ''> '' @ post)\<rparr>)
                 sz c2)) \<and>
     (post = ''SIZE='' @ s \<and> \<not> intText s \<longrightarrow>
        commandLoop u line msg sz c = (Logged (NumError s), c1))"
proof -
  let ?v = "pre @ ''> '' @ post"
  have nd: "ToUpper u cmd \<noteq> ''DATA''" using assms(4) by simp
  have e1: "cmd @ CHR '':'' # ?v = cmd @ '':'' @ ?v" by simp
  have e2: "pre @ CHR ''>'' # SP # post = ?v" by simp
  have rd: "readLine c = (Inr (cmd @ CHR '':'' # ?v), c1)" using assms(2) by simp
  have first: "\<forall>j<length pre. \<not> ((pre @ CHR ''>'' # SP # post) ! j = CHR ''>'' \<and>
      (pre @ CHR ''>'' # SP # post) ! (j + 1) = SP)" using assms(5) by simp
  have step: "commandLoop u line msg sz c =
     (case declaredSize ''MAIL FROM'' ?v sz of
        Panic \<Rightarrow> (Panic, c1)
      | Logged err \<Rightarrow> (Logged err, c1)
      | Ok sz' \<Rightarrow>
          (case writeLn ''250 OK'' c1 of
             (Inl err, c2) \<Rightarrow> (Logged err, c2)
           | (Inr _, c2) \<Rightarrow>
               commandLoop u (cmd @ '':'' @ ?v)
                 (msg\<lparr>smtpHeaders := (smtpHeaders msg)(''MAIL FROM'' \<mapsto> ?v)\<rparr>) sz' c2))"
    using commandLoop_step [OF assms(1) rd assms(3) nd, of msg sz] unfolding assms(4) e1 .
  show ?thesis
  proof (intro conjI impI)
    assume a: "post = ''SIZE='' @ s \<and> intText s"
    then have "Atoi s = Inr (numberOf s)" by (intro Atoi_intText) simp
    with a declaredSize_SIZE [OF first, of s sz]
    have "declaredSize ''MAIL FROM'' ?v sz = Ok (numberOf s)" unfolding e2 by simp
    then show "commandLoop u line msg sz c =
          (case writeLn ''250 OK'' c1 of
             (Inl err, c2) \<Rightarrow> (Logged err, c2)
           | (Inr _, c2) \<Rightarrow>
               commandLoop u (cmd @ '':'' @ pre @ ''> '' @ post)
                 (msg\<lparr>smtpHeaders := (smtpHeaders msg)(''MAIL FROM'' \<mapsto> pre @ ''> '' @ post)\<rparr>)
                 (numberOf s) c2)"
      unfolding step by (simp only: result.case)
  next
    assume n: "\<forall>t. post \<noteq> ''SIZE='' @ t"
    have "\<not> HasPrefix post ''SIZE=''"
    proof
      assume "HasPrefix post ''SIZE=''"
      then have "post = ''SIZE='' @ drop (length ''SIZE='') post" by (rule HasPrefix_split)
      with n show False by blast
    qed
    with declaredSize_first_gt [OF first, of sz]
    have "declaredSize ''MAIL FROM'' ?v sz = Ok sz" unfolding e2 by simp
    then show "commandLoop u line msg sz c =
          (case writeLn ''250 OK'' c1 of
             (Inl err, c2) \<Rightarrow> (Logged err, c2)
           | (Inr _, c2) \<Rightarrow>
               commandLoop u (cmd @ '':'' @ pre @ ''> '' @ post)
                 (msg\<lparr>smtpHeaders := (smtpHeaders msg)(''MAIL FROM'' \<mapsto> pre @ ''> '' @ post)\<rparr>)
                 sz c2)"
      unfolding step by (simp only: result.case)
  next
    assume a: "post = ''SIZE='' @ s \<and> \<not> intText s"
    then have "Atoi s = Inl (NumError s)" by (intro Atoi_not_intText) simp
    with a declaredSize_SIZE [OF first, of s sz]
    have "declaredSize ''MAIL FROM'' ?v sz = Logged (NumError s)" unfolding e2 by simp
    then show "commandLoop u line msg sz c = (Logged (NumError s), c1)"
      unfolding step by (simp only: result.case)
  qed
qed

theorem mail_from_declared_size_witness:
  "map_result snd (fst (commandLoop noUnicode ''EHLO x'' noMessage 0
      \<lparr>conn = peer [''MAIL FROM:<user@mail.com> SIZE=3000'' @ crlf, ''DATA'' @ crlf],
        ident = 1, buf = []\<rparr>)) = Ok 3000 \<and>
   map_result snd (fst (commandLoop noUnicode ''EHLO x'' noMessage 0
      \<lparr>conn = peer [''MAIL FROM:<user@mail.com> BODY=8BITMIME'' @ crlf, ''DATA'' @ crlf],
        ident = 1, buf = []\<rparr>)) = Ok 0 \<and>
   map_result snd (fst (commandLoop noUnicode ''EHLO x'' noMessage 0
      \<lparr>conn = peer [''MAIL FROM:<user@mail.com> SIZE=abc'' @ crlf, ''DATA'' @ crlf],
        ident = 1, buf = []\<rparr>)) = Logged (NumError ''abc'')"
proof -
  let ?pre = "''<user@mail.com''"
  let ?c1 = "\<lparr>conn = peer [''DATA'' @ crlf], ident = 1, buf = []\<rparr>"
  let ?C = "\<lambda>post. \<lparr>conn = peer [(''MAIL FROM'' @ '':'' @ ?pre @ ''> '' @ post) @ crlf, ''DATA'' @ crlf],
        ident = 1, buf = []\<rparr>"
  have l: "''EHLO x'' \<noteq> []" by simp
  have colon: "CHR '':'' \<notin> set ''MAIL FROM''" by simp
  have up: "ToUpper noUnicode ''MAIL FROM'' = ''MAIL FROM''" by code_simp
  have first: "\<forall>j<length ?pre. \<not> ((?pre @ ''> '' @ post) ! j = CHR ''>'' \<and>
      (?pre @ ''> '' @ post) ! (j + 1) = SP)" for post
    by (simp add: all_below_iff nth_append)
  have rd: "readLine (?C post) = (Inr (''MAIL FROM'' @ '':'' @ ?pre @ ''> '' @ post), ?c1)"
    if "post \<in> {''SIZE=3000'', ''BODY=8BITMIME'', ''SIZE=abc''}" for post
    using that by (elim insertE emptyE; hypsubst) code_simp+
  have a: "''SIZE=3000'' = ''SIZE='' @ ''3000'' \<and> intText ''3000''" by code_simp
  have b: "\<forall>t. ''BODY=8BITMIME'' \<noteq> ''SIZE='' @ t" by simp
  have c: "''SIZE=abc'' = ''SIZE='' @ ''abc'' \<and> \<not> intText ''abc''" by code_simp
  from mail_from_declared_size [OF l rd colon up first, of "''SIZE=3000''" "''3000''" noMessage 0] a
  have "commandLoop noUnicode ''EHLO x'' noMessage 0 (?C ''SIZE=3000'') =
          (case writeLn ''250 OK'' ?c1 of
             (Inl err, c2) \<Rightarrow> (Logged err, c2)
           | (Inr _, c2) \<Rightarrow>
               commandLoop noUnicode (''MAIL FROM'' @ '':'' @ ?pre @ ''> '' @ ''SIZE=3000'')
                 (noMessage\<lparr>smtpHeaders := (smtpHeaders noMessage)(''MAIL FROM'' \<mapsto> ?pre @ ''> '' @ ''SIZE=3000'')\<rparr>)
                 (numberOf ''3000'') c2)"
    by blast
  moreover have "map_result snd (fst (case writeLn ''250 OK'' ?c1 of
             (Inl err, c2) \<Rightarrow> (Logged err, c2)
           | (Inr _, c2) \<Rightarrow>
               commandLoop noUnicode (''MAIL FROM'' @ '':'' @ ?pre @ ''> '' @ ''SIZE=3000'')
                 (noMessage\<lparr>smtpHeaders := (smtpHeaders noMessage)(''MAIL FROM'' \<mapsto> ?pre @ ''> '' @ ''SIZE=3000'')\<rparr>)
                 (numberOf ''3000'') c2)) = Ok 3000"
    by code_simp
  ultimately have 1: "map_result snd (fst (commandLoop noUnicode ''EHLO x'' noMessage 0 (?C ''SIZE=3000''))) = Ok 3000"
    by (simp only:)
  from mail_from_declared_size [OF l rd colon up first, of "''BODY=8BITMIME''" "''3000''" noMessage 0] b
  have "commandLoop noUnicode ''EHLO x'' noMessage 0 (?C ''BODY=8BITMIME'') =
          (case writeLn ''250 OK'' ?c1 of
             (Inl err, c2) \<Rightarrow> (Logged err, c2)
           | (Inr _, c2) \<Rightarrow>
               commandLoop noUnicode (''MAIL FROM'' @ '':'' @ ?pre @ ''> '' @ ''BODY=8BITMIME'')
                 (noMessage\<lparr>smtpHeaders := (smtpHeaders noMessage)(''MAIL FROM'' \<mapsto> ?pre @ ''> '' @ ''BODY=8BITMIME'')\<rparr>)
                 0 c2)"
    by blast
  moreover have "map_result snd (fst (case writeLn ''250 OK'' ?c1 of
             (Inl err, c2) \<Rightarrow> (Logged err, c2)
           | (Inr _, c2) \<Rightarrow>
               commandLoop noUnicode (''MAIL FROM'' @ '':'' @ ?pre @ ''> '' @ ''BODY=8BITMIME'')
                 (noMessage\<lparr>smtpHeaders := (smtpHeaders noMessage)(''MAIL FROM'' \<mapsto> ?pre @ ''> '' @ ''BODY=8BITMIME'')\<rparr>)
                 0 c2)) = Ok 0"
    by code_simp
  ultimately have 2: "map_result snd (fst (commandLoop noUnicode ''EHLO x'' noMessage 0 (?C ''BODY=8BITMIME''))) = Ok 0"
    by (simp only:)
  from mail_from_declared_size [OF l rd colon up first, of "''SIZE=abc''" "''abc''" noMessage 0] c
  have "commandLoop noUnicode ''EHLO x'' noMessage 0 (?C ''SIZE=abc'') = (Logged (NumError ''abc''), ?c1)"
    by blast
  then have 3: "map_result snd (fst (commandLoop noUnicode ''EHLO x'' noMessage 0 (?C ''SIZE=abc''))) =
      Logged (NumError ''abc'')"
    by simp
  from 1 2 3 show ?thesis by simp
qed

text \<open>
  C7 as the claim states it fails where the value holds more than the one parameter, or
  a number beyond \<open>int\<close>. After \<open>SIZE=3000\<close> a further parameter makes the code fail,
  with nothing written, where the claim sets the size to 3000. A \<open>SIZE=abc\<close> that is not
  the first parameter is not looked at: the size stays 0 and the command is acknowledged
  (and \<open>DATA\<close> after it), where the claim ends the connection. And the numeric suffix
  \<open>9223372036854775808\<close> is a failure, not a size.
\<close>

theorem mail_from_size_counterexample:
  "map_prod (map_result snd) (\<lambda>c. outgoing (conn c))
     (commandLoop noUnicode ''EHLO x'' noMessage 0
        \<lparr>conn = peer [''MAIL FROM:<a@b> SIZE=3000 BODY=8BITMIME'' @ crlf, ''DATA'' @ crlf],
          ident = 1, buf = []\<rparr>) =
     (Logged (NumError ''3000 BODY=8BITMIME''), []) \<and>
   map_prod (map_result snd) (\<lambda>c. outgoing (conn c))
     (commandLoop noUnicode ''EHLO x'' noMessage 0
        \<lparr>conn = peer [''MAIL FROM:<a@b> BODY=8BITMIME SIZE=abc'' @ crlf, ''DATA'' @ crlf],
          ident = 1, buf = []\<rparr>) =
     (Ok 0, ''250 OK'' @ crlf @ ''354'' @ crlf) \<and>
   map_prod (map_result snd) (\<lambda>c. outgoing (conn c))
     (commandLoop noUnicode ''EHLO x'' noMessage 0
        \<lparr>conn = peer [''MAIL FROM:<a@b> SIZE=9223372036854775808'' @ crlf, ''DATA'' @ crlf],
          ident = 1, buf = []\<rparr>) =
     (Logged (NumError ''9223372036854775808''), []) \<and>
   numeric ''9223372036854775808''"
  apply (intro conjI)
     apply code_simp
    apply code_simp
   apply code_simp
  apply code_simp
  done

text \<open>
  C5. The claim: a command line without a colon that is not \<open>DATA\<close> ends the connection
  with an error that is returned, not with a crash. In the code \<open>strings.SplitN\<close> gives
  one piece for such a line and line 222 indexes the second: every such line, the empty
  line that the loop condition \<open>line != ""\<close> waits for included, makes \<open>handle\<close> panic.
\<close>

theorem command_without_colon_panics:
  "line \<noteq> [] \<and> readLine c = (Inr l, c1) \<and> CHR '':'' \<notin> set l \<and> ToUpper u l \<noteq> ''DATA'' \<longrightarrow>
     commandLoop u line msg sz c = (Panic, c1)"
proof
  assume a: "line \<noteq> [] \<and> readLine c = (Inr l, c1) \<and> CHR '':'' \<notin> set l \<and> ToUpper u l \<noteq> ''DATA''"
  then have "SplitN2 l '':'' = [l]" by (simp add: SplitN2_no_colon)
  with a show "commandLoop u line msg sz c = (Panic, c1)"
    by (subst commandLoop.simps) (simp add: Let_def)
qed

theorem command_without_colon_panics_witness:
  "commandLoop noUnicode ''EHLO x'' noMessage 0 \<lparr>conn = peer [''QUIT'' @ crlf], ident = 1, buf = []\<rparr> =
     (Panic, \<lparr>conn = peer [], ident = 1, buf = []\<rparr>) \<and>
   commandLoop noUnicode ''EHLO x'' noMessage 0 \<lparr>conn = peer [crlf], ident = 1, buf = []\<rparr> =
     (Panic, \<lparr>conn = peer [], ident = 1, buf = []\<rparr>) \<and>
   observed (handle noUnicode (accepted (peer [''EHLO x'' @ crlf, ''QUIT'' @ crlf]))) =
     Some (Panic,
       ''220 mail.binutils.org ESMTP gomail'' @ crlf @
       ''250-mail.binutils.org greets x'' @ crlf @
       ''250-8BITMIME'' @ crlf @ ''250-SIZE'' @ crlf @ ''250-DSN'' @ crlf @
       ''250 HELP'' @ crlf)"
proof -
  let ?c1 = "\<lparr>conn = peer [], ident = 1, buf = []\<rparr>"
  have 1: "readLine \<lparr>conn = peer [''QUIT'' @ crlf], ident = 1, buf = []\<rparr> = (Inr ''QUIT'', ?c1)"
    by code_simp
  have 2: "readLine \<lparr>conn = peer [crlf], ident = 1, buf = []\<rparr> = (Inr [], ?c1)"
    by code_simp
  have 3: "ToUpper noUnicode ''QUIT'' \<noteq> ''DATA''" "ToUpper noUnicode [] \<noteq> ''DATA''"
    by code_simp+
  from command_without_colon_panics [of "''EHLO x''" _ "''QUIT''" ?c1 noUnicode noMessage 0] 1 3
  have a: "commandLoop noUnicode ''EHLO x'' noMessage 0 \<lparr>conn = peer [''QUIT'' @ crlf], ident = 1, buf = []\<rparr> =
     (Panic, ?c1)" by simp
  from command_without_colon_panics [of "''EHLO x''" _ "[]" ?c1 noUnicode noMessage 0] 2 3
  have b: "commandLoop noUnicode ''EHLO x'' noMessage 0 \<lparr>conn = peer [crlf], ident = 1, buf = []\<rparr> =
     (Panic, ?c1)" by simp
  have c: "observed (handle noUnicode (accepted (peer [''EHLO x'' @ crlf, ''QUIT'' @ crlf]))) =
     Some (Panic,
       ''220 mail.binutils.org ESMTP gomail'' @ crlf @
       ''250-mail.binutils.org greets x'' @ crlf @
       ''250-8BITMIME'' @ crlf @ ''250-SIZE'' @ crlf @ ''250-DSN'' @ crlf @
       ''250 HELP'' @ crlf)"
    by code_simp
  from a b c show ?thesis by (intro conjI)
qed

text \<open>
  C4. The claim: a first line that does not begin with \<open>EHLO\<close> and a space fails with a
  protocol violation, and otherwise the text after \<open>EHLO\<close> and the space is the client
  domain. The code tests the prefix \<open>EHLO\<close> (line 159) and slices from
  \<open>len("EHLO ")\<close> (line 160): the line \<open>EHLO\<close> passes the test and the slice panics; the
  line \<open>EHLOmail.example\<close> is accepted and loses the byte after \<open>EHLO\<close>. A line without
  the prefix is logged as the claim says, and one with \<open>EHLO\<close> and a space stores the
  rest. This holds whatever the Unicode tables \<open>u\<close> are.
\<close>

theorem greet_EHLO_without_space:
  "observed (handle u (accepted (peer [''EHLO'' @ crlf]))) =
     Some (Panic, ''220 mail.binutils.org ESMTP gomail'' @ crlf) \<and>
   map_result (\<lambda>(line, msg). clientDomain msg)
     (fst (greet (accepted (peer [''EHLOmail.example'' @ crlf])))) = Ok ''ail.example'' \<and>
   observed (handle u (accepted (peer [''HELO x'' @ crlf]))) =
     Some (Logged (ExpectedEHLO ''Expected EHLO got: HELO x''),
       ''220 mail.binutils.org ESMTP gomail'' @ crlf) \<and>
   map_result (\<lambda>(line, msg). clientDomain msg)
     (fst (greet (accepted (peer [''EHLO mail.example'' @ crlf])))) = Ok ''mail.example''"
  apply (intro conjI)
     apply code_simp
    apply code_simp
   apply code_simp
  apply code_simp
  done

text \<open>
  C9. The claim: however the input is cut into transport reads, the frames are those of
  the uncut input. For \<open>readLine\<close> the frames depend on the cut, since every call reads
  before it scans (C1): the two lines \<open>A\<close> and \<open>B\<close> in one segment give \<open>A\<close> and then a
  failed read, in two segments they give \<open>A\<close> and \<open>B\<close>. A single line, as in the claim's
  example, comes out the same in one segment and in three.
\<close>

theorem readLine_frames_depend_on_segments:
  "readLines 2 (accepted (peer [''A'' @ crlf @ ''B'' @ crlf])) = [''A''] \<and>
   readLines 2 (accepted (peer [''A'' @ crlf, ''B'' @ crlf])) = [''A'', ''B''] \<and>
   readLines 1 (accepted (peer [''EHLO x'' @ crlf])) = [''EHLO x''] \<and>
   readLines 1 (accepted (peer [''EH'', ''LO x'' @ [CR], [LF]])) = [''EHLO x'']"
  apply (intro conjI)
     apply code_simp
    apply code_simp
   apply code_simp
  apply code_simp
  done

end
